theory Spec2Isabelle
  imports Main "HOL-Library.Multiset"
begin

section \<open>The local tablets channel: data model\<close>

text \<open>
  A shallow embedding of \<^verbatim>\<open>be/src/runtime/local_tablets_channel.cpp\<close>: the per-sender
  sliding windows, the row scatter of \<^verbatim>\<open>_create_write_context\<close>, the dispatch loop and the
  closing of senders in \<^verbatim>\<open>add_chunk\<close>.

  The declarations of \<^verbatim>\<open>local_tablets_channel.h\<close> are not part of this file, so the
  constant \<^verbatim>\<open>_max_sliding_window_size\<close> is a parameter \<open>ws\<close> of every function that reads
  it, and the initial value of \<^verbatim>\<open>Sender::last_sliding_packet_seq\<close> is a parameter of \<open>open\<close>.
\<close>

datatype status_code =
  OK | INVALID_ARGUMENT | DUPLICATE_RPC_INVOCATION | INTERNAL_ERROR | MEM_ALLOC_FAILED

text \<open>
  C++ undefined behaviour (an array access out of bounds, dereferencing an \<^verbatim>\<open>end()\<close>
  iterator) is a result of its own, so that no theorem can rest on a value HOL invents.
\<close>

datatype 'a outcome = Returns 'a | Undefined

datatype replica_state = Primary | Secondary

text \<open>What the channel reads of an \<^verbatim>\<open>AsyncDeltaWriter\<close>, an external collaborator.\<close>

record writer =
  partition_id :: int
  replica_state :: replica_state

text \<open>The requests the channel hands to its writers, in the order it issues them.\<close>

datatype writer_call =
  Write int nat nat  \<comment> \<open>tablet id, offset into \<^verbatim>\<open>row_indexes\<close>, \<^verbatim>\<open>indexes_size\<close>\<close>
| Commit int
| Abort int bool  \<comment> \<open>tablet id, the argument of \<^verbatim>\<open>abort\<close>\<close>

text \<open>
  \<^verbatim>\<open>struct Sender\<close>: the two \<^verbatim>\<open>std::set<int64_t>\<close> are kept as the strictly increasing
  list of their elements, the order in which the set iterates: \<^verbatim>\<open>*cbegin()\<close> is the head,
  \<^verbatim>\<open>erase(cbegin())\<close> the tail. Sequence numbers are \<^verbatim>\<open>int64_t\<close>; they are modelled as
  \<open>int\<close>, since no sequence number comes near \<open>2^63\<close>.
\<close>

record sender =
  receive_sliding_window :: "int list"
  success_sliding_window :: "int list"
  last_sliding_packet_seq :: int

text \<open>
  The fields of \<^verbatim>\<open>LocalTabletsChannel\<close> that \<^verbatim>\<open>add_chunk\<close> reads or writes. The two
  \<^verbatim>\<open>unordered_map\<close>s are association lists with distinct keys (\<^verbatim>\<open>emplace\<close> keeps the first
  entry of a key); \<open>writer_calls\<close> records what has been issued to the writers so far.
\<close>

record channel =
  senders :: "sender list"
  num_remaining_senders :: int
  partition_ids :: "int set"
  delta_writers :: "(int \<times> writer) list"
  tablet_id_to_sorted_indexes :: "(int \<times> nat) list"
  is_replicated_storage :: bool
  writer_calls :: "writer_call list"

text \<open>
  \<^verbatim>\<open>PTabletWriterAddChunkRequest\<close>, with the optional protobuf fields as options. The
  chunk is represented by its number of rows; \<open>None\<close> is the null pointer.
\<close>

record request =
  sender_id :: "int option"
  packet_seq :: "int option"
  eos :: bool
  req_partition_ids :: "int list"
  tablet_ids :: "int list"

type_synonym chunk = "nat option"

text \<open>
  \<^verbatim>\<open>WriteContext\<close>: the two \<^verbatim>\<open>unique_ptr<uint32_t[]>\<close> arrays, \<open>None\<close> while they are
  null pointers.
\<close>

record write_context =
  row_indexes :: "nat list option"
  channel_row_idx_start_points :: "nat list option"

section \<open>Containers\<close>

text \<open>\<^verbatim>\<open>std::set::insert\<close> on the increasing list.\<close>

fun set_insert :: "int \<Rightarrow> int list \<Rightarrow> int list" where
  "set_insert x [] = [x]"
| "set_insert x (y # ys) =
     (if x < y then x # y # ys else if x = y then y # ys else y # set_insert x ys)"

text \<open>\<^verbatim>\<open>unordered_map::emplace\<close>: no effect when the key is present.\<close>

definition emplace :: "'k \<Rightarrow> 'v \<Rightarrow> ('k \<times> 'v) list \<Rightarrow> ('k \<times> 'v) list" where
  "emplace k v m = (case map_of m k of None \<Rightarrow> m @ [(k, v)] | Some _ \<Rightarrow> m)"

text \<open>
  \<^verbatim>\<open>unordered_map::operator[]\<close>: a missing key is inserted with the value-initialised
  mapped value, here 0. The map is returned with the value.
\<close>

definition index_or_insert :: "(int \<times> nat) list \<Rightarrow> int \<Rightarrow> (int \<times> nat) list \<times> nat" where
  "index_or_insert m k = (case map_of m k of None \<Rightarrow> (m @ [(k, 0)], 0) | Some v \<Rightarrow> (m, v))"

text \<open>Arithmetic on \<^verbatim>\<open>uint32_t\<close> array elements wraps modulo \<open>2^32\<close>.\<close>

definition u32 :: "int \<Rightarrow> nat" where
  "u32 x = nat (x mod 2 ^ 32)"

section \<open>Row scatter: \<^verbatim>\<open>_create_write_context\<close>\<close>

text \<open>
  Lines 460-463, the counting pass: \<^verbatim>\<open>channel_row_idx_start_points[channel_index]++\<close> for
  every row, where the ordinal is read with \<^verbatim>\<open>operator[]\<close>.
\<close>

fun count_rows ::
  "(int \<times> nat) list \<Rightarrow> nat list \<Rightarrow> int list \<Rightarrow> ((int \<times> nat) list \<times> nat list) outcome" where
  "count_rows idx sp [] = Returns (idx, sp)"
| "count_rows idx sp (t # ts) =
     (case index_or_insert idx t of (idx', c) \<Rightarrow>
        if c < length sp then count_rows idx' (sp[c := u32 (int (sp ! c) + 1)]) ts
        else Undefined)"

text \<open>Lines 466-468: \<^verbatim>\<open>for (int i = 1; i <= channel_size; ++i) p[i] += p[i - 1]\<close>.\<close>

definition prefix_sums :: "nat \<Rightarrow> nat list \<Rightarrow> nat list" where
  "prefix_sums channel_size sp =
     fold (\<lambda>i p. p[i := u32 (int (p ! i) + int (p ! (i - 1)))]) [1..<Suc channel_size] sp"

text \<open>
  Lines 472-481, the scatter pass over the rows in the order given (the caller passes
  \<open>n - 1, \<dots>, 0\<close>): \<^verbatim>\<open>row_indexes[p[channel_index] - 1] = i; p[channel_index]--\<close>. The
  first component of the state is \<^verbatim>\<open>row_indexes\<close>, the second the start points.
\<close>

fun scatter_rows ::
  "(int \<times> nat) list \<Rightarrow> int list \<Rightarrow> nat list \<Rightarrow> nat list \<Rightarrow> nat list
     \<Rightarrow> (status_code + nat list \<times> nat list) outcome" where
  "scatter_rows idx tids [] rows sp = Returns (Inr (rows, sp))"
| "scatter_rows idx tids (i # is) rows sp =
     (case map_of idx (tids ! i) of
        None \<Rightarrow> Returns (Inl INTERNAL_ERROR)
      | Some c \<Rightarrow>
          if c < length sp \<and> u32 (int (sp ! c) - 1) < length rows
          then scatter_rows idx tids is
                 (rows[u32 (int (sp ! c) - 1) := i]) (sp[c := u32 (int (sp ! c) - 1)])
          else Undefined)"

text \<open>
  \<^verbatim>\<open>_create_write_context\<close>. The result carries the sorted-index map as well, because
  \<^verbatim>\<open>operator[]\<close> in the counting pass may have added to it. \<^verbatim>\<open>make_unique<uint32_t[]>(n)\<close>
  zero-initialises.
\<close>

definition create_write_context ::
  "(int \<times> nat) list \<Rightarrow> chunk \<Rightarrow> request
     \<Rightarrow> ((status_code + write_context) \<times> (int \<times> nat) list) outcome" where
  "create_write_context idx chunk req =
     (case chunk of
        None \<Rightarrow>
          if \<not> eos req then Returns (Inl INVALID_ARGUMENT, idx)
          else Returns (Inr \<lparr>row_indexes = None, channel_row_idx_start_points = None\<rparr>, idx)
      | Some num_rows \<Rightarrow>
          if length (tablet_ids req) \<noteq> num_rows then Returns (Inl INVALID_ARGUMENT, idx)
          else
            let channel_size = length idx in
            (case count_rows idx (replicate (channel_size + 1) 0) (tablet_ids req) of
               Undefined \<Rightarrow> Undefined
             | Returns (idx', counted) \<Rightarrow>
                 (case scatter_rows idx' (tablet_ids req) (rev [0..<length (tablet_ids req)])
                         (replicate num_rows 0) (prefix_sums channel_size counted) of
                    Undefined \<Rightarrow> Undefined
                  | Returns (Inl st) \<Rightarrow> Returns (Inl st, idx')
                  | Returns (Inr (rows, sp)) \<Rightarrow>
                      Returns (Inr \<lparr>row_indexes = Some rows,
                                    channel_row_idx_start_points = Some sp\<rparr>, idx'))))"

section \<open>Opening: the sorted tablet index\<close>

text \<open>
  Lines 402-405 of \<^verbatim>\<open>_open_all_writers\<close>: the tablet ids are sorted and every id is
  emplaced with its position.
\<close>

definition sorted_indexes :: "int list \<Rightarrow> (int \<times> nat) list" where
  "sorted_indexes tids =
     fold (\<lambda>i m. emplace (sort tids ! i) i m) [0..<length tids] []"

text \<open>
  \<^verbatim>\<open>PTabletWriterOpenRequest\<close>, as far as \<^verbatim>\<open>open\<close> reads it: the sender count and the
  tablets with their partition ids. What \<^verbatim>\<open>open\<close> obtains from its collaborators is in
  \<open>open_env\<close>: whether the schema knows the index id, whether the memory pool serves the
  global dictionaries, and what \<^verbatim>\<open>AsyncDeltaWriter::open\<close> answers for a tablet.
\<close>

record open_params =
  num_senders :: int
  tablets :: "(int \<times> int) list"
  params_is_replicated_storage :: bool

record open_env =
  index_known :: bool
  dict_alloc_ok :: bool
  writer_open :: "int \<Rightarrow> int \<Rightarrow> status_code + writer"
  initial_packet_seq :: int

datatype open_result = Opened channel | Open_failed status_code | Open_throws

text \<open>Lines 373-398: the writers are opened in request order; the first failure ends it.\<close>

fun open_writers ::
  "(int \<Rightarrow> int \<Rightarrow> status_code + writer) \<Rightarrow> (int \<times> int) list \<Rightarrow> (int \<times> writer) list
     \<Rightarrow> status_code + (int \<times> writer) list" where
  "open_writers wo [] dw = Inr dw"
| "open_writers wo ((t, p) # ts) dw =
     (case wo t p of Inl e \<Rightarrow> Inl e | Inr w \<Rightarrow> open_writers wo ts (emplace t w dw))"

text \<open>
  \<^verbatim>\<open>open\<close> with \<^verbatim>\<open>_open_all_writers\<close>. A negative sender count makes the constructor of
  \<^verbatim>\<open>std::vector<Sender>\<close> throw.
\<close>

definition open_channel :: "open_env \<Rightarrow> open_params \<Rightarrow> open_result" where
  "open_channel env params =
     (if num_senders params < 0 then Open_throws
      else if \<not> index_known env then Open_failed INVALID_ARGUMENT
      else if \<not> dict_alloc_ok env then Open_failed MEM_ALLOC_FAILED
      else
        case open_writers (writer_open env) (tablets params) [] of
          Inl e \<Rightarrow> Open_failed e
        | Inr dw \<Rightarrow>
            Opened \<lparr>senders = replicate (nat (num_senders params))
                       \<lparr>receive_sliding_window = [], success_sliding_window = [],
                        last_sliding_packet_seq = initial_packet_seq env\<rparr>,
                    num_remaining_senders = num_senders params,
                    partition_ids = {},
                    delta_writers = dw,
                    tablet_id_to_sorted_indexes = sorted_indexes (map fst (tablets params)),
                    is_replicated_storage = params_is_replicated_storage params,
                    writer_calls = []\<rparr>)"

section \<open>\<^verbatim>\<open>add_chunk\<close>\<close>

text \<open>
  Lines 122-160, the block under the sender's lock: \<open>Inl\<close> is the status of an early
  return, \<open>Inr\<close> the sender with the sequence number inserted into the receive window.
\<close>

definition check_sliding_window :: "nat \<Rightarrow> sender \<Rightarrow> int \<Rightarrow> bool \<Rightarrow> status_code + sender" where
  "check_sliding_window ws s seq is_eos =
     (if seq \<in> set (receive_sliding_window s) then
        (if seq \<notin> set (success_sliding_window s) \<or> is_eos
         then Inl DUPLICATE_RPC_INVOCATION
         else Inl OK)
      else if seq \<le> last_sliding_packet_seq s then Inl OK
      else if seq > last_sliding_packet_seq s + int ws then Inl INVALID_ARGUMENT
      else Inr (s\<lparr>receive_sliding_window := set_insert seq (receive_sliding_window s)\<rparr>))"

text \<open>
  Lines 183-205, the dispatch loop over the ordinals \<open>is\<close>; \<open>acc\<close> collects the write
  requests. \<^verbatim>\<open>size\<close> is a \<^verbatim>\<open>size_t\<close> difference. A tablet id without a writer fails the
  \<^verbatim>\<open>DCHECK\<close> and dereferences \<^verbatim>\<open>end()\<close>.
\<close>

fun dispatch_writes ::
  "(int \<times> writer) list \<Rightarrow> int list \<Rightarrow> nat list \<Rightarrow> nat list \<Rightarrow> nat list \<Rightarrow> writer_call list
     \<Rightarrow> writer_call list outcome" where
  "dispatch_writes dw tids rows sp [] acc = Returns acc"
| "dispatch_writes dw tids rows sp (i # is) acc =
     (if Suc i < length sp then
        (let from = sp ! i;
             size = nat ((int (sp ! Suc i) - int from) mod 2 ^ 64)
         in if size = 0 then dispatch_writes dw tids rows sp is acc
            else if from < length rows \<and> rows ! from < length tids then
              (case map_of dw (tids ! (rows ! from)) of
                 None \<Rightarrow> Undefined
               | Some w \<Rightarrow>
                   dispatch_writes dw tids rows sp is
                     (acc @ [Write (tids ! (rows ! from)) from size]))
            else Undefined)
      else Undefined)"

text \<open>
  \<^verbatim>\<open>_close_sender\<close> in its two parts: line 332, \<^verbatim>\<open>fetch_sub(1)\<close>, which yields the
  value before the decrement, and lines 334-337, which record the partition ids of the
  request under \<^verbatim>\<open>_partitions_ids_lock\<close>. The result is the former less one.
  \<^verbatim>\<open>DCHECK_GE(n, 1)\<close> is compiled out of release builds. The counter is modelled as an
  unbounded \<open>int\<close>: it goes down by one per closing batch, and a 32-bit counter would wrap
  only after \<open>2^31\<close> of them.
\<close>

definition fetch_sub_remaining_senders :: "channel \<Rightarrow> int \<times> channel" where
  "fetch_sub_remaining_senders ch =
     (num_remaining_senders ch, ch\<lparr>num_remaining_senders := num_remaining_senders ch - 1\<rparr>)"

definition record_partitions :: "channel \<Rightarrow> int list \<Rightarrow> channel" where
  "record_partitions ch partitions = ch\<lparr>partition_ids := partition_ids ch \<union> set partitions\<rparr>"

definition close_sender :: "channel \<Rightarrow> int list \<Rightarrow> int \<times> channel" where
  "close_sender ch partitions =
     (case fetch_sub_remaining_senders ch of (n, ch') \<Rightarrow> (n - 1, record_partitions ch' partitions))"

text \<open>
  Lines 222-237, the close sequence under \<^verbatim>\<open>_partitions_ids_lock\<close>: every writer that is
  not a secondary replica is committed if its partition id is recorded, and aborted
  otherwise.
\<close>

definition commit_or_abort :: "int set \<Rightarrow> int \<times> writer \<Rightarrow> writer_call list" where
  "commit_or_abort parts tw =
     (if replica_state (snd tw) \<noteq> Secondary then
        (if partition_id (snd tw) \<notin> parts then [Abort (fst tw) False] else [Commit (fst tw)])
      else [])"

definition commit_or_abort_writers :: "channel \<Rightarrow> channel" where
  "commit_or_abort_writers ch =
     ch\<lparr>writer_calls := writer_calls ch @
           concat (map (commit_or_abort (partition_ids ch)) (delta_writers ch))\<rparr>"

text \<open>
  \<^verbatim>\<open>add_chunk\<close> suspends at \<^verbatim>\<open>count_down_latch.wait()\<close> (line 249) until its writers have
  called back, and other calls run meanwhile. The model therefore has two halves. The
  first, lines 95-240, either returns a status at once or reaches the latch, with the flag
  \<^verbatim>\<open>close_channel\<close>.
\<close>

datatype submit_result =
  Return status_code channel
| Wait channel bool
| Undefined_behaviour

definition add_chunk_submit :: "nat \<Rightarrow> channel \<Rightarrow> chunk \<Rightarrow> request \<Rightarrow> submit_result" where
  "add_chunk_submit ws ch chunk req =
     (case sender_id req of
        None \<Rightarrow> Return INVALID_ARGUMENT ch
      | Some sid \<Rightarrow>
     if sid < 0 then Return INVALID_ARGUMENT ch
     else if int (length (senders ch)) \<le> sid then Return INVALID_ARGUMENT ch
     else
     case packet_seq req of
        None \<Rightarrow> Return INVALID_ARGUMENT ch
      | Some seq \<Rightarrow>
     case check_sliding_window ws (senders ch ! nat sid) seq (eos req) of
        Inl st \<Rightarrow> Return st ch
      | Inr s' \<Rightarrow>
     let ch1 = ch\<lparr>senders := (senders ch)[nat sid := s']\<rparr> in
     case create_write_context (tablet_id_to_sorted_indexes ch1) chunk req of
        Undefined \<Rightarrow> Undefined_behaviour
      | Returns (Inl st, idx') \<Rightarrow> Return st (ch1\<lparr>tablet_id_to_sorted_indexes := idx'\<rparr>)
      | Returns (Inr context, idx') \<Rightarrow>
     let ch2 = ch1\<lparr>tablet_id_to_sorted_indexes := idx'\<rparr>;
         channel_size = (if chunk \<noteq> None then length idx' else 0);
         rows = (case row_indexes context of None \<Rightarrow> [] | Some r \<Rightarrow> r);
         sp = (case channel_row_idx_start_points context of None \<Rightarrow> [] | Some p \<Rightarrow> p)
     in
     case dispatch_writes (delta_writers ch2) (tablet_ids req) rows sp [0..<channel_size] [] of
        Undefined \<Rightarrow> Undefined_behaviour
      | Returns writes \<Rightarrow>
     let ch3 = ch2\<lparr>writer_calls := writer_calls ch2 @ writes\<rparr> in
     if eos req then
       (case close_sender ch3 (req_partition_ids req) of (n, ch4) \<Rightarrow>
          if n = 0 then Wait (commit_or_abort_writers ch4) True
          else Wait ch4 False)
     else Wait ch3 False)"

text \<open>
  Lines 293-302, the pruning loop. It need not return, so it is a partial function: \<open>None\<close>
  is a loop that runs forever. \<^verbatim>\<open>&&\<close> evaluates \<^verbatim>\<open>*last_receive_iter\<close> only after the first
  comparison held.
\<close>

partial_function (option) prune_loop :: "nat \<Rightarrow> sender \<Rightarrow> sender outcome option" where
  "prune_loop ws s =
     (if ws div 2 < length (success_sliding_window s) then
        (case success_sliding_window s of
           [] \<Rightarrow> Some Undefined
         | x # xs \<Rightarrow>
             if last_sliding_packet_seq s + 1 = x then
               (case receive_sliding_window s of
                  [] \<Rightarrow> Some Undefined
                | r # rs \<Rightarrow>
                    if x = r then
                      prune_loop ws \<lparr>receive_sliding_window = rs, success_sliding_window = xs,
                                     last_sliding_packet_seq = last_sliding_packet_seq s + 1\<rparr>
                    else prune_loop ws s)
             else prune_loop ws s)
      else Some (Returns s))"

declare prune_loop.simps [code]

text \<open>
  The second half of \<^verbatim>\<open>add_chunk\<close>, lines 289-303, run by the call of sender \<open>sid\<close> and
  sequence number \<open>seq\<close> once the latch has opened. The wait for the secondary replicas
  (lines 252-287) and the notification of the load channel (lines 305-319) touch no
  field of the channel and are left out.
\<close>

definition add_chunk_complete :: "nat \<Rightarrow> channel \<Rightarrow> nat \<Rightarrow> int \<Rightarrow> channel outcome option" where
  "add_chunk_complete ws ch sid seq =
     (let s = senders ch ! sid;
          s1 = s\<lparr>success_sliding_window := set_insert seq (success_sliding_window s)\<rparr>
      in case prune_loop ws s1 of
           None \<Rightarrow> None
         | Some Undefined \<Rightarrow> Some Undefined
         | Some (Returns s2) \<Rightarrow> Some (Returns (ch\<lparr>senders := (senders ch)[sid := s2]\<rparr>)))"

section \<open>Executions\<close>

text \<open>
  An execution is a sequence of events on one channel: a call of \<^verbatim>\<open>add_chunk\<close> running its
  first half, or a call that waits at the latch being resumed and running its second half.
  \<open>waiting\<close> holds the (sender, sequence number) of the calls at the latch, \<open>dispatched\<close>
  every request that reached the latch so far, with its \<^verbatim>\<open>close_channel\<close> flag. An
  execution is \<open>None\<close> when an event is not enabled, a call runs into undefined behaviour,
  or a call does not return.

  Each half is one step. In the source the window check and the window update hold the
  sender's lock, and the counter is decremented atomically, so that the sliding windows
  and the counter see no finer interleaving. \<^verbatim>\<open>_close_sender\<close> however records the
  partition ids after the decrement, under a lock of its own; two closing calls that
  overlap between the two are not told apart here.
\<close>

datatype event = Add_chunk chunk request | Resume nat int

record sys =
  chan :: channel
  waiting :: "(nat \<times> int) list"
  dispatched :: "(request \<times> bool) list"

definition call_key :: "request \<Rightarrow> (nat \<times> int) option" where
  "call_key req =
     (case sender_id req of
        None \<Rightarrow> None
      | Some sid \<Rightarrow> (case packet_seq req of None \<Rightarrow> None | Some seq \<Rightarrow> Some (nat sid, seq)))"

definition step :: "nat \<Rightarrow> sys \<Rightarrow> event \<Rightarrow> sys option" where
  "step ws s ev =
     (case ev of
        Add_chunk chunk req \<Rightarrow>
          (case add_chunk_submit ws (chan s) chunk req of
             Return st ch' \<Rightarrow> Some (s\<lparr>chan := ch'\<rparr>)
           | Wait ch' close \<Rightarrow>
               (case call_key req of
                  None \<Rightarrow> None
                | Some k \<Rightarrow>
                    Some \<lparr>chan = ch', waiting = k # waiting s,
                          dispatched = dispatched s @ [(req, close)]\<rparr>)
           | Undefined_behaviour \<Rightarrow> None)
      | Resume sid seq \<Rightarrow>
          if (sid, seq) \<in> set (waiting s) then
            (case add_chunk_complete ws (chan s) sid seq of
               Some (Returns ch') \<Rightarrow>
                 Some (s\<lparr>chan := ch', waiting := remove1 (sid, seq) (waiting s)\<rparr>)
             | _ \<Rightarrow> None)
          else None)"

fun run :: "nat \<Rightarrow> sys \<Rightarrow> event list \<Rightarrow> sys option" where
  "run ws s [] = Some s"
| "run ws s (ev # evs) = (case step ws s ev of None \<Rightarrow> None | Some s' \<Rightarrow> run ws s' evs)"

definition initial :: "channel \<Rightarrow> sys" where
  "initial ch = \<lparr>chan = ch, waiting = [], dispatched = []\<rparr>"

section \<open>Invariants of a sender slot and of an execution\<close>

text \<open>
  What holds of a sender between two critical sections: both windows are strictly
  increasing lists, every completed sequence number is a received one, and every received
  one lies in the window above \<^verbatim>\<open>last_sliding_packet_seq\<close>.
\<close>

definition sender_inv :: "nat \<Rightarrow> sender \<Rightarrow> bool" where
  "sender_inv ws s \<longleftrightarrow>
     sorted_wrt (<) (receive_sliding_window s) \<and>
     sorted_wrt (<) (success_sliding_window s) \<and>
     set (success_sliding_window s) \<subseteq> set (receive_sliding_window s) \<and>
     (\<forall>x \<in> set (receive_sliding_window s).
        last_sliding_packet_seq s < x \<and> x \<le> last_sliding_packet_seq s + int ws)"

text \<open>
  Every sender satisfies \<open>sender_inv\<close>, and the calls at the latch are distinct, each with
  its sequence number received and not yet completed.
\<close>

definition sys_inv :: "nat \<Rightarrow> sys \<Rightarrow> bool" where
  "sys_inv ws s \<longleftrightarrow>
     (\<forall>sd \<in> set (senders (chan s)). sender_inv ws sd) \<and>
     distinct (waiting s) \<and>
     (\<forall>k \<in> set (waiting s).
        fst k < length (senders (chan s)) \<and>
        snd k \<in> set (receive_sliding_window (senders (chan s) ! fst k)) \<and>
        snd k \<notin> set (success_sliding_window (senders (chan s) ! fst k)))"

text \<open>
  A sequence number that is received, not completed, and belongs to no call at the latch:
  nothing will ever complete it.
\<close>

definition poisoned :: "nat \<Rightarrow> int \<Rightarrow> sys \<Rightarrow> bool" where
  "poisoned sid seq s \<longleftrightarrow>
     sid < length (senders (chan s)) \<and>
     seq \<in> set (receive_sliding_window (senders (chan s) ! sid)) \<and>
     seq \<notin> set (success_sliding_window (senders (chan s) ! sid)) \<and>
     (sid, seq) \<notin> set (waiting s)"

text \<open>The calls of the close sequence, and the closing batches dispatched so far.\<close>

fun is_close_call :: "writer_call \<Rightarrow> bool" where
  "is_close_call (Write t f n) = False"
| "is_close_call (Commit t) = True"
| "is_close_call (Abort t g) = True"



section \<open>Buckets of rows\<close>

text \<open>
  For the scatter: with \<open>key r\<close> the ordinal of row \<open>r\<close>, the rows below \<open>n\<close> of ordinal
  \<open>k\<close> in their order, and the number of rows below \<open>n\<close> of a smaller ordinal, which is
  where the rows of \<open>k\<close> start.
\<close>

definition bucket :: "(nat \<Rightarrow> nat) \<Rightarrow> nat \<Rightarrow> nat \<Rightarrow> nat list" where
  "bucket key n k = filter (\<lambda>r. key r = k) [0..<n]"

definition bucket_start :: "(nat \<Rightarrow> nat) \<Rightarrow> nat \<Rightarrow> nat \<Rightarrow> nat" where
  "bucket_start key n k = length (filter (\<lambda>r. key r < k) [0..<n])"

text \<open>Every ordinal of the sorted index is below its size.\<close>

definition ordinals_in_range :: "(int \<times> nat) list \<Rightarrow> bool" where
  "ordinals_in_range idx \<longleftrightarrow> (\<forall>c \<in> snd ` set idx. c < length idx)"

section \<open>A concrete channel\<close>

text \<open>
  Two senders and the tablets 5, 2 and 8, of which 5 and 8 lie in partition 10 and 2 in
  partition 20; the writer of tablet 8 is a secondary replica. Sequence numbers start
  after \<open>-1\<close>.
\<close>

definition example_env :: open_env where
  "example_env =
     \<lparr>index_known = True, dict_alloc_ok = True,
      writer_open = (\<lambda>t p. Inr \<lparr>partition_id = p,
                                 replica_state = (if t = 8 then Secondary else Primary)\<rparr>),
      initial_packet_seq = - 1\<rparr>"

definition example_params :: open_params where
  "example_params =
     \<lparr>num_senders = 2, tablets = [(5, 10), (2, 20), (8, 10)],
      params_is_replicated_storage = True\<rparr>"

definition example_channel :: channel where
  "example_channel =
     \<lparr>senders =
        [\<lparr>receive_sliding_window = [], success_sliding_window = [],
          last_sliding_packet_seq = - 1\<rparr>,
         \<lparr>receive_sliding_window = [], success_sliding_window = [],
          last_sliding_packet_seq = - 1\<rparr>],
      num_remaining_senders = 2,
      partition_ids = {},
      delta_writers =
        [(5, \<lparr>partition_id = 10, replica_state = Primary\<rparr>),
         (2, \<lparr>partition_id = 20, replica_state = Primary\<rparr>),
         (8, \<lparr>partition_id = 10, replica_state = Secondary\<rparr>)],
      tablet_id_to_sorted_indexes = [(2, 0), (5, 1), (8, 2)],
      is_replicated_storage = True,
      writer_calls = []\<rparr>"

definition batch :: "int \<Rightarrow> int \<Rightarrow> bool \<Rightarrow> int list \<Rightarrow> int list \<Rightarrow> request" where
  "batch sid seq e ps ts =
     \<lparr>sender_id = Some sid, packet_seq = Some seq, eos = e, req_partition_ids = ps,
      tablet_ids = ts\<rparr>"

text \<open>
  An execution with a window size of 2: sender 0 has batches 0 and 1 written and
  batch 2 still at the latch.
\<close>

definition example_trace :: "event list" where
  "example_trace =
     [Add_chunk (Some 1) (batch 0 0 False [] [5]), Resume 0 0,
      Add_chunk (Some 1) (batch 0 1 False [] [2]), Resume 0 1,
      Add_chunk (Some 2) (batch 0 2 False [] [5, 8])]"

definition example_state :: sys where
  "example_state =
     \<lparr>chan = example_channel
        \<lparr>senders :=
           [\<lparr>receive_sliding_window = [1, 2], success_sliding_window = [1],
             last_sliding_packet_seq = 0\<rparr>,
            \<lparr>receive_sliding_window = [], success_sliding_window = [],
             last_sliding_packet_seq = - 1\<rparr>],
         writer_calls := [Write 5 0 1, Write 2 0 1, Write 5 0 1, Write 8 1 1]\<rparr>,
      waiting = [(0, 2)],
      dispatched =
        [(batch 0 0 False [] [5], False), (batch 0 1 False [] [2], False),
         (batch 0 2 False [] [5, 8], False)]\<rparr>"

text \<open>The same execution after three and after four events.\<close>

definition example_state_3 :: sys where
  "example_state_3 =
     \<lparr>chan = example_channel
        \<lparr>senders :=
           [\<lparr>receive_sliding_window = [0, 1], success_sliding_window = [0],
             last_sliding_packet_seq = - 1\<rparr>,
            \<lparr>receive_sliding_window = [], success_sliding_window = [],
             last_sliding_packet_seq = - 1\<rparr>],
         writer_calls := [Write 5 0 1, Write 2 0 1]\<rparr>,
      waiting = [(0, 1)],
      dispatched = [(batch 0 0 False [] [5], False), (batch 0 1 False [] [2], False)]\<rparr>"

definition example_state_4 :: sys where
  "example_state_4 =
     \<lparr>chan = example_channel
        \<lparr>senders :=
           [\<lparr>receive_sliding_window = [1], success_sliding_window = [1],
             last_sliding_packet_seq = 0\<rparr>,
            \<lparr>receive_sliding_window = [], success_sliding_window = [],
             last_sliding_packet_seq = - 1\<rparr>],
         writer_calls := [Write 5 0 1, Write 2 0 1]\<rparr>,
      waiting = [],
      dispatched = [(batch 0 0 False [] [5], False), (batch 0 1 False [] [2], False)]\<rparr>"

text \<open>
  \<open>example_state\<close> after sender 1 has sent sequence number 0 with neither chunk nor
  \<^verbatim>\<open>eos\<close>, and the same after batch 2 of sender 0 has completed.
\<close>

definition example_state_poisoned :: sys where
  "example_state_poisoned =
     example_state
       \<lparr>chan := (chan example_state)
          \<lparr>senders :=
             [\<lparr>receive_sliding_window = [1, 2], success_sliding_window = [1],
               last_sliding_packet_seq = 0\<rparr>,
              \<lparr>receive_sliding_window = [0], success_sliding_window = [],
               last_sliding_packet_seq = - 1\<rparr>]\<rparr>\<rparr>"

definition example_state_poisoned_later :: sys where
  "example_state_poisoned_later =
     example_state
       \<lparr>chan := (chan example_state)
          \<lparr>senders :=
             [\<lparr>receive_sliding_window = [2], success_sliding_window = [2],
               last_sliding_packet_seq = 1\<rparr>,
              \<lparr>receive_sliding_window = [0], success_sliding_window = [],
               last_sliding_packet_seq = - 1\<rparr>]\<rparr>,
        waiting := []\<rparr>"

text \<open>
  An execution for a window size of 40: sender 0 sends the batches 0 to 21, and the
  writes of the batches 1 to 20 complete while those of 0 and 21 are still under way.
\<close>

definition out_of_order_trace :: "event list" where
  "out_of_order_trace =
     map (\<lambda>q. Add_chunk (Some 1) (batch 0 q False [] [5])) [0..21] @
     map (\<lambda>q. Resume 0 q) [1..20]"



definition out_of_order_state :: sys where
  "out_of_order_state =
     \<lparr>chan = example_channel
        \<lparr>senders :=
           [\<lparr>receive_sliding_window = [0..21], success_sliding_window = [1..20],
             last_sliding_packet_seq = - 1\<rparr>,
            \<lparr>receive_sliding_window = [], success_sliding_window = [],
             last_sliding_packet_seq = - 1\<rparr>],
         writer_calls := replicate 22 (Write 5 0 1)\<rparr>,
      waiting = [(0, 21), (0, 0)],
      dispatched = map (\<lambda>q. (batch 0 q False [] [5], False)) [0..21]\<rparr>"

section \<open>Basic facts\<close>

subsection \<open>Opening\<close>

lemma open_channel_Opened:
  assumes "open_channel env params = Opened ch"
  shows "tablet_id_to_sorted_indexes ch = sorted_indexes (map fst (tablets params))"
    and "senders ch = replicate (nat (num_senders params))
                       \<lparr>receive_sliding_window = [], success_sliding_window = [],
                        last_sliding_packet_seq = initial_packet_seq env\<rparr>"
    and "num_remaining_senders ch = num_senders params"
    and "0 \<le> num_senders params"
    and "partition_ids ch = {}"
    and "writer_calls ch = []"
    and "open_writers (writer_open env) (tablets params) [] = Inr (delta_writers ch)"
  using assms by (auto simp: open_channel_def split: if_splits sum.splits)

subsection \<open>The first half of \<^verbatim>\<open>add_chunk\<close>\<close>

lemma dispatch_writes_acc:
  "dispatch_writes dw tids rows sp is acc = Returns r \<Longrightarrow>
     \<exists>writes. r = acc @ writes \<and> (\<forall>c \<in> set writes. \<exists>t f z. c = Write t f z)"
proof (induction dw tids rows sp "is" acc rule: dispatch_writes.induct)
  case (1 dw tids rows sp acc)
  then show ?case by simp
next
  case (2 dw tids rows sp i "is" acc)
  then show ?case
    by (fastforce simp: Let_def split: if_splits option.splits)
qed

lemma submit_Return:
  assumes "add_chunk_submit ws ch chunk req = Return st ch'"
  shows "ch' = ch \<or>
    (\<exists>sid seq s' idx'. sender_id req = Some sid \<and> 0 \<le> sid \<and> nat sid < length (senders ch) \<and>
        packet_seq req = Some seq \<and>
        check_sliding_window ws (senders ch ! nat sid) seq (eos req) = Inr s' \<and>
        create_write_context (tablet_id_to_sorted_indexes ch) chunk req = Returns (Inl st, idx') \<and>
        ch' = ch\<lparr>senders := (senders ch)[nat sid := s'], tablet_id_to_sorted_indexes := idx'\<rparr>)"
  using assms
  by (auto simp add: add_chunk_submit_def Let_def
        split: option.splits if_splits sum.splits outcome.splits prod.splits)

lemma submit_Wait:
  assumes "add_chunk_submit ws ch chunk req = Wait ch' close"
  shows "\<exists>sid seq s' idx' context writes. sender_id req = Some sid \<and> 0 \<le> sid \<and> nat sid < length (senders ch) \<and>
        packet_seq req = Some seq \<and>
        check_sliding_window ws (senders ch ! nat sid) seq (eos req) = Inr s' \<and>
        create_write_context (tablet_id_to_sorted_indexes ch) chunk req = Returns (Inr context, idx') \<and>
        (\<forall>c \<in> set writes. \<exists>t f z. c = Write t f z) \<and>
        close = (eos req \<and> num_remaining_senders ch = 1) \<and>
        senders ch' = (senders ch)[nat sid := s'] \<and>
        tablet_id_to_sorted_indexes ch' = idx' \<and>
        delta_writers ch' = delta_writers ch \<and>
        is_replicated_storage ch' = is_replicated_storage ch \<and>
        writer_calls ch' = writer_calls ch @ writes @
                    (if close then concat (map (commit_or_abort
                        (partition_ids ch \<union> set (req_partition_ids req))) (delta_writers ch)) else []) \<and>
        num_remaining_senders ch' = (if eos req then num_remaining_senders ch - 1 else num_remaining_senders ch) \<and>
        partition_ids ch' = (if eos req then partition_ids ch \<union> set (req_partition_ids req) else partition_ids ch)"
  using assms
  apply (simp add: add_chunk_submit_def Let_def close_sender_def fetch_sub_remaining_senders_def
        record_partitions_def commit_or_abort_writers_def
        split: option.splits if_splits sum.splits outcome.splits prod.splits)
  apply (auto dest!: dispatch_writes_acc)
  done

subsection \<open>The sliding windows\<close>

lemma set_set_insert [simp]: "set (set_insert x xs) = insert x (set xs)"
  by (induction xs) auto

lemma sorted_set_insert: "sorted_wrt (<) xs \<Longrightarrow> sorted_wrt (<) (set_insert x xs)"
  by (induction xs) auto

lemma check_sliding_window_Inr:
  assumes "check_sliding_window ws s seq e = Inr s'"
  shows "seq \<notin> set (receive_sliding_window s)"
    and "last_sliding_packet_seq s < seq"
    and "seq \<le> last_sliding_packet_seq s + int ws"
    and "s' = s\<lparr>receive_sliding_window := set_insert seq (receive_sliding_window s)\<rparr>"
  using assms by (auto simp: check_sliding_window_def split: if_splits)

lemma check_sliding_window_inv:
  assumes "check_sliding_window ws s seq e = Inr s'" and "sender_inv ws s"
  shows "sender_inv ws s'"
  using check_sliding_window_Inr[OF assms(1)] assms(2)
  by (auto simp: sender_inv_def sorted_set_insert)

lemmas prune_loop_induct = prune_loop.raw_induct[rotated 1, consumes 1, case_names step]

lemma prune_loop_inv:
  assumes "prune_loop ws s = Some y"
  shows "sender_inv ws s \<longrightarrow>
     (\<exists>s'. y = Returns s' \<and> sender_inv ws s' \<and>
        last_sliding_packet_seq s \<le> last_sliding_packet_seq s' \<and>
        set (receive_sliding_window s') =
          set (receive_sliding_window s) - {last_sliding_packet_seq s <.. last_sliding_packet_seq s'} \<and>
        set (success_sliding_window s') =
          set (success_sliding_window s) - {last_sliding_packet_seq s <.. last_sliding_packet_seq s'} \<and>
        {last_sliding_packet_seq s <.. last_sliding_packet_seq s'} \<subseteq> set (success_sliding_window s))"
  using assms
proof (induction rule: prune_loop_induct)
  case (step loop ws s y)
  note body = step.hyps and IH = step.IH

  show ?case
  proof
    assume inv: "sender_inv ws s"
    show "\<exists>s'. y = Returns s' \<and> sender_inv ws s' \<and>
        last_sliding_packet_seq s \<le> last_sliding_packet_seq s' \<and>
        set (receive_sliding_window s') =
          set (receive_sliding_window s) - {last_sliding_packet_seq s <.. last_sliding_packet_seq s'} \<and>
        set (success_sliding_window s') =
          set (success_sliding_window s) - {last_sliding_packet_seq s <.. last_sliding_packet_seq s'} \<and>
        {last_sliding_packet_seq s <.. last_sliding_packet_seq s'} \<subseteq> set (success_sliding_window s)"
    proof (cases "ws div 2 < length (success_sliding_window s)")
      case False
      with body have "y = Returns s" by simp
      with inv show ?thesis by auto
    next
      case True
      then obtain x xs where sx: "success_sliding_window s = x # xs"
        by (cases "success_sliding_window s") auto
      with inv obtain r rs where rx: "receive_sliding_window s = r # rs"
        by (cases "receive_sliding_window s") (auto simp: sender_inv_def)
      show ?thesis
      proof (cases "last_sliding_packet_seq s + 1 = x \<and> x = r")
        case False
        with True sx rx body have "loop ws s = Some y"
          by (auto split: if_splits)
        from IH[OF this] inv show ?thesis by blast
      next
        case c: True
        let ?n = "\<lparr>receive_sliding_window = rs, success_sliding_window = xs,
                   last_sliding_packet_seq = last_sliding_packet_seq s + 1\<rparr>"
        from c True sx rx body have "loop ws ?n = Some y"
          by (auto split: if_splits)
        moreover have invn: "sender_inv ws ?n"
          using inv sx rx c by (fastforce simp: sender_inv_def)
        ultimately obtain s' where s': "y = Returns s'" "sender_inv ws s'"
          "last_sliding_packet_seq s + 1 \<le> last_sliding_packet_seq s'"
          "set (receive_sliding_window s') = set rs - {last_sliding_packet_seq s + 1 <.. last_sliding_packet_seq s'}"
          "set (success_sliding_window s') = set xs - {last_sliding_packet_seq s + 1 <.. last_sliding_packet_seq s'}"
          "{last_sliding_packet_seq s + 1 <.. last_sliding_packet_seq s'} \<subseteq> set xs"
          using IH[of ws ?n y] by auto
        have xr: "x = last_sliding_packet_seq s + 1" "r = x" using c by auto
        have notin: "x \<notin> set xs" "x \<notin> set rs"
          using inv sx rx xr by (auto simp: sender_inv_def)
        have ivl: "{last_sliding_packet_seq s <.. last_sliding_packet_seq s'} =
            insert x {x <.. last_sliding_packet_seq s'}"
          using xr s'(3) by auto
        have r1: "set (receive_sliding_window s') = set (receive_sliding_window s) - insert x {x <.. last_sliding_packet_seq s'}"
          unfolding s'(4) rx xr(2) using notin(2) xr(1) by auto
        have r2: "set (success_sliding_window s') = set (success_sliding_window s) - insert x {x <.. last_sliding_packet_seq s'}"
          unfolding s'(5) sx using notin(1) xr(1) by auto
        have r3: "insert x {x <.. last_sliding_packet_seq s'} \<subseteq> set (success_sliding_window s)"
          unfolding sx using s'(6) xr(1) by auto
        have r4: "last_sliding_packet_seq s \<le> last_sliding_packet_seq s'"
          using s'(3) by simp
        show ?thesis
          by (intro exI[of _ s'] conjI s'(1) s'(2) r4 r1[folded ivl] r2[folded ivl] r3[folded ivl])
      qed
    qed
  qed
qed

text \<open>
  When more than half a window of sequence numbers has completed and the smallest of
  them is not the next to prune, an iteration changes nothing, and the loop goes on.
\<close>

lemma prune_loop_spins:
  assumes "ws div 2 < length (success_sliding_window s)"
    and "success_sliding_window s = x # xs" and "receive_sliding_window s = r # rs"
    and "last_sliding_packet_seq s + 1 \<noteq> x \<or> x \<noteq> r"
  shows "prune_loop ws s = None"
proof (rule ccontr)
  assume "prune_loop ws s \<noteq> None"
  then obtain y where y: "prune_loop ws s = Some y" by auto
  have "ws div 2 < length (success_sliding_window s) \<longrightarrow>
        success_sliding_window s = x # xs \<longrightarrow> receive_sliding_window s = r # rs \<longrightarrow>
        (last_sliding_packet_seq s + 1 \<noteq> x \<or> x \<noteq> r) \<longrightarrow> False"
    using y
  proof (induction rule: prune_loop_induct)
    case (step loop ws s y)
    show ?case
    proof (intro impI)
      assume a: "ws div 2 < length (success_sliding_window s)"
        "success_sliding_window s = x # xs" "receive_sliding_window s = r # rs"
        "last_sliding_packet_seq s + 1 \<noteq> x \<or> x \<noteq> r"
      with step.hyps have "loop ws s = Some y" by (auto split: if_splits)
      from step.IH[OF this] a show False by blast
    qed
  qed
  with assms show False by blast
qed

subsection \<open>Steps preserve the invariant\<close>

lemma step_Add_chunk:
  assumes "step ws s (Add_chunk chunk req) = Some s'"
  shows "(\<exists>st ch'. add_chunk_submit ws (chan s) chunk req = Return st ch' \<and> s' = s\<lparr>chan := ch'\<rparr>) \<or>
         (\<exists>ch' close k. add_chunk_submit ws (chan s) chunk req = Wait ch' close \<and>
             call_key req = Some k \<and>
             s' = \<lparr>chan = ch', waiting = k # waiting s, dispatched = dispatched s @ [(req, close)]\<rparr>)"
  using assms by (auto simp: step_def split: submit_result.splits option.splits)

lemma step_Resume:
  assumes "step ws s (Resume sid seq) = Some s'"
  shows "(sid, seq) \<in> set (waiting s)"
    and "\<exists>ch'. add_chunk_complete ws (chan s) sid seq = Some (Returns ch') \<and>
           s' = s\<lparr>chan := ch', waiting := remove1 (sid, seq) (waiting s)\<rparr>"
  using assms by (auto simp: step_def split: if_splits option.splits outcome.splits)

lemma complete_Returns:
  assumes "add_chunk_complete ws ch sid seq = Some (Returns ch')"
    and "sender_inv ws (senders ch ! sid)"
    and "seq \<in> set (receive_sliding_window (senders ch ! sid))"
  shows "\<exists>s2. ch' = ch\<lparr>senders := (senders ch)[sid := s2]\<rparr> \<and> sender_inv ws s2 \<and>
     last_sliding_packet_seq (senders ch ! sid) \<le> last_sliding_packet_seq s2 \<and>
     set (receive_sliding_window s2) = set (receive_sliding_window (senders ch ! sid))
        - {last_sliding_packet_seq (senders ch ! sid) <.. last_sliding_packet_seq s2} \<and>
     set (success_sliding_window s2) = insert seq (set (success_sliding_window (senders ch ! sid)))
        - {last_sliding_packet_seq (senders ch ! sid) <.. last_sliding_packet_seq s2} \<and>
     {last_sliding_packet_seq (senders ch ! sid) <.. last_sliding_packet_seq s2}
        \<subseteq> insert seq (set (success_sliding_window (senders ch ! sid)))"
proof -
  let ?s = "senders ch ! sid"
  let ?s1 = "?s\<lparr>success_sliding_window := set_insert seq (success_sliding_window ?s)\<rparr>"
  from assms(1) obtain s2 where p: "prune_loop ws ?s1 = Some (Returns s2)"
    and ch': "ch' = ch\<lparr>senders := (senders ch)[sid := s2]\<rparr>"
    by (auto simp: add_chunk_complete_def Let_def split: option.splits outcome.splits)
  have "sender_inv ws ?s1"
    using assms(2,3) by (auto simp: sender_inv_def sorted_set_insert)
  with prune_loop_inv[OF p] ch' show ?thesis by auto
qed

lemma sender_inv_upd:
  assumes "\<forall>x \<in> set xs. sender_inv ws x" and "sender_inv ws y"
  shows "\<forall>x \<in> set (xs[i := y]). sender_inv ws x"
  using assms by (metis insertE set_update_subset_insert subsetD)

lemma step_sys_inv:
  assumes "step ws s ev = Some s'" and "sys_inv ws s"
  shows "sys_inv ws s'"
proof (cases ev)
  case (Add_chunk chunk req)
  from step_Add_chunk[OF assms(1)[unfolded Add_chunk]]
  consider (ret) st ch' where "add_chunk_submit ws (chan s) chunk req = Return st ch'" "s' = s\<lparr>chan := ch'\<rparr>"
    | (wait) ch' close k where "add_chunk_submit ws (chan s) chunk req = Wait ch' close"
        "call_key req = Some k"
        "s' = \<lparr>chan = ch', waiting = k # waiting s, dispatched = dispatched s @ [(req, close)]\<rparr>"
    by blast
  then show ?thesis
  proof cases
    case ret
    from submit_Return[OF ret(1)] show ?thesis
    proof
      assume "ch' = chan s" with ret assms(2) show ?thesis by (simp add: sys_inv_def)
    next
      assume "\<exists>sid seq s' idx'. sender_id req = Some sid \<and> 0 \<le> sid \<and> nat sid < length (senders (chan s)) \<and>
        packet_seq req = Some seq \<and>
        check_sliding_window ws (senders (chan s) ! nat sid) seq (eos req) = Inr s' \<and>
        create_write_context (tablet_id_to_sorted_indexes (chan s)) chunk req = Returns (Inl st, idx') \<and>
        ch' = (chan s)\<lparr>senders := (senders (chan s))[nat sid := s'], tablet_id_to_sorted_indexes := idx'\<rparr>"
      then obtain sid seq sn idx' where a: "nat sid < length (senders (chan s))"
        "check_sliding_window ws (senders (chan s) ! nat sid) seq (eos req) = Inr sn"
        "senders ch' = (senders (chan s))[nat sid := sn]"
        by auto
      have old: "sender_inv ws (senders (chan s) ! nat sid)"
        using assms(2) a(1) by (simp add: sys_inv_def)
      have new: "sender_inv ws sn" by (rule check_sliding_window_inv[OF a(2) old])
      have 1: "\<forall>x \<in> set (senders ch'). sender_inv ws x"
        unfolding a(3) using assms(2) new by (intro sender_inv_upd) (auto simp: sys_inv_def)
      have 2: "\<And>k. k \<in> set (waiting s) \<Longrightarrow> fst k < length (senders ch') \<and>
          snd k \<in> set (receive_sliding_window (senders ch' ! fst k)) \<and>
          snd k \<notin> set (success_sliding_window (senders ch' ! fst k))"
        using assms(2) check_sliding_window_Inr(4)[OF a(2)] a(1)
        unfolding a(3) sys_inv_def by (auto simp: nth_list_update)
      show ?thesis using 1 2 assms(2) ret(2) by (auto simp: sys_inv_def)
    qed
  next
    case wait
    from submit_Wait[OF wait(1)] obtain sid seq sn where a:
      "sender_id req = Some sid" "0 \<le> sid" "nat sid < length (senders (chan s))"
      "packet_seq req = Some seq"
      "check_sliding_window ws (senders (chan s) ! nat sid) seq (eos req) = Inr sn"
      "senders ch' = (senders (chan s))[nat sid := sn]"
      by auto
    have k: "k = (nat sid, seq)" using wait(2) a(1,4) by (simp add: call_key_def)
    have old: "sender_inv ws (senders (chan s) ! nat sid)"
      using assms(2) a(3) by (simp add: sys_inv_def)
    have new: "sender_inv ws sn" by (rule check_sliding_window_inv[OF a(5) old])
    note c = check_sliding_window_Inr[OF a(5)]
    have 1: "\<forall>x \<in> set (senders ch'). sender_inv ws x"
      unfolding a(6) using assms(2) new by (intro sender_inv_upd) (auto simp: sys_inv_def)
    have 2: "\<And>k. k \<in> set (waiting s) \<Longrightarrow> fst k < length (senders ch') \<and>
          snd k \<in> set (receive_sliding_window (senders ch' ! fst k)) \<and>
          snd k \<notin> set (success_sliding_window (senders ch' ! fst k))"
      using assms(2) c(4) a(3)
      unfolding a(6) sys_inv_def by (auto simp: nth_list_update)
    have 3: "k \<notin> set (waiting s)"
      using assms(2) c(1) unfolding k sys_inv_def by fastforce
    have 4: "fst k < length (senders ch') \<and>
          snd k \<in> set (receive_sliding_window (senders ch' ! fst k)) \<and>
          snd k \<notin> set (success_sliding_window (senders ch' ! fst k))"
      using a(3) c(1,4) old unfolding k a(6) by (auto simp: sender_inv_def)
    show ?thesis using 1 2 3 4 assms(2) wait(3) by (auto simp: sys_inv_def)
  qed
next
  case (Resume sid seq)
  note r = step_Resume[OF assms(1)[unfolded Resume]]
  from r(2) obtain ch' where c: "add_chunk_complete ws (chan s) sid seq = Some (Returns ch')"
    and s': "s' = s\<lparr>chan := ch', waiting := remove1 (sid, seq) (waiting s)\<rparr>" by blast
  have w: "sid < length (senders (chan s))" "seq \<in> set (receive_sliding_window (senders (chan s) ! sid))"
    "seq \<notin> set (success_sliding_window (senders (chan s) ! sid))"
    using assms(2) r(1) by (auto simp: sys_inv_def)
  have old: "sender_inv ws (senders (chan s) ! sid)"
    using assms(2) w(1) by (simp add: sys_inv_def)
  from complete_Returns[OF c old w(2)] obtain s2 where s2:
    "ch' = (chan s)\<lparr>senders := (senders (chan s))[sid := s2]\<rparr>" "sender_inv ws s2"
    "set (receive_sliding_window s2) = set (receive_sliding_window (senders (chan s) ! sid))
        - {last_sliding_packet_seq (senders (chan s) ! sid) <.. last_sliding_packet_seq s2}"
    "set (success_sliding_window s2) = insert seq (set (success_sliding_window (senders (chan s) ! sid)))
        - {last_sliding_packet_seq (senders (chan s) ! sid) <.. last_sliding_packet_seq s2}"
    "{last_sliding_packet_seq (senders (chan s) ! sid) <.. last_sliding_packet_seq s2}
        \<subseteq> insert seq (set (success_sliding_window (senders (chan s) ! sid)))"
    by blast
  have 1: "\<forall>x \<in> set (senders ch'). sender_inv ws x"
    unfolding s2(1) using assms(2) s2(2) by (simp, intro sender_inv_upd) (auto simp: sys_inv_def)
  have 2: "fst k < length (senders ch') \<and>
          snd k \<in> set (receive_sliding_window (senders ch' ! fst k)) \<and>
          snd k \<notin> set (success_sliding_window (senders ch' ! fst k))"
    if "k \<in> set (waiting s)" "k \<noteq> (sid, seq)" for k
  proof (cases "fst k = sid")
    case False
    then show ?thesis using assms(2) that(1) unfolding s2(1) sys_inv_def by (auto simp: nth_list_update)
  next
    case True
    then have ne: "snd k \<noteq> seq" using that(2) by (cases k) auto
    have kk: "snd k \<in> set (receive_sliding_window (senders (chan s) ! sid))"
      "snd k \<notin> set (success_sliding_window (senders (chan s) ! sid))"
      using assms(2) that(1) True unfolding sys_inv_def by auto
    have "snd k \<in> set (receive_sliding_window s2)" "snd k \<notin> set (success_sliding_window s2)"
      using kk ne s2(5) unfolding s2(3) s2(4) by auto
    then show ?thesis using True w(1) unfolding s2(1) by simp
  qed
  have 3: "distinct (remove1 (sid, seq) (waiting s))" using assms(2) by (simp add: sys_inv_def)
  have 4: "set (remove1 (sid, seq) (waiting s)) = set (waiting s) - {(sid, seq)}"
    using assms(2) by (simp add: sys_inv_def)
  show ?thesis using 1 2 3 4 unfolding s' sys_inv_def by auto
qed

lemma run_sys_inv:
  assumes "run ws s evs = Some s'" and "sys_inv ws s"
  shows "sys_inv ws s'"
  using assms
proof (induction evs arbitrary: s)
  case Nil
  then show ?case by simp
next
  case (Cons ev evs)
  then show ?case by (auto split: option.splits dest: step_sys_inv)
qed

lemma opened_sys_inv:
  assumes "open_channel env params = Opened ch"
  shows "sys_inv ws (initial ch)"
  using open_channel_Opened(2)[OF assms]
  by (auto simp: sys_inv_def initial_def sender_inv_def)

lemma step_length_senders:
  assumes "step ws s ev = Some s'"
  shows "length (senders (chan s')) = length (senders (chan s))"
proof (cases ev)
  case (Add_chunk chunk req)
  from step_Add_chunk[OF assms[unfolded Add_chunk]] show ?thesis
    by (auto dest!: submit_Return submit_Wait)
next
  case (Resume sid seq)
  from step_Resume(2)[OF assms[unfolded Resume]] show ?thesis
    by (auto simp: add_chunk_complete_def Let_def split: option.splits outcome.splits)
qed

lemma run_length_senders:
  assumes "run ws s evs = Some s'"
  shows "length (senders (chan s')) = length (senders (chan s))"
  using assms
  by (induction evs arbitrary: s) (auto split: option.splits dest: step_length_senders)

lemma reachable_length_senders:
  assumes "open_channel env params = Opened ch0" and "run ws (initial ch0) evs = Some s"
  shows "int (length (senders (chan s))) = num_senders params"
  using run_length_senders[OF assms(2)] open_channel_Opened(2,4)[OF assms(1)]
  by (simp add: initial_def)

lemma step_Return_same:
  assumes "add_chunk_submit ws (chan s) chunk req = Return st (chan s)"
  shows "step ws s (Add_chunk chunk req) = Some s"
  using assms by (simp add: step_def)

subsection \<open>One step, seen from one sender\<close>

lemma step_Add_chunk_senders:
  assumes "step ws s (Add_chunk chunk req) = Some s'"
  shows "senders (chan s') = senders (chan s) \<and> waiting s' = waiting s \<or>
    (\<exists>sid seq. call_key req = Some (sid, seq) \<and> sid < length (senders (chan s)) \<and>
       (waiting s' = waiting s \<or> waiting s' = (sid, seq) # waiting s) \<and>
       seq \<notin> set (receive_sliding_window (senders (chan s) ! sid)) \<and>
       last_sliding_packet_seq (senders (chan s) ! sid) < seq \<and>
       senders (chan s') = (senders (chan s))
         [sid := (senders (chan s) ! sid)
            \<lparr>receive_sliding_window :=
               set_insert seq (receive_sliding_window (senders (chan s) ! sid))\<rparr>])"
proof -
  from step_Add_chunk[OF assms]
  consider (ret) st ch' where "add_chunk_submit ws (chan s) chunk req = Return st ch'" "s' = s\<lparr>chan := ch'\<rparr>"
    | (wait) ch' close k where "add_chunk_submit ws (chan s) chunk req = Wait ch' close"
        "call_key req = Some k"
        "s' = \<lparr>chan = ch', waiting = k # waiting s, dispatched = dispatched s @ [(req, close)]\<rparr>"
    by blast
  then show ?thesis
  proof cases
    case ret
    from submit_Return[OF ret(1)] show ?thesis
    proof
      assume "ch' = chan s" then show ?thesis using ret(2) by simp
    next
      assume "\<exists>sid seq s' idx'. sender_id req = Some sid \<and> 0 \<le> sid \<and> nat sid < length (senders (chan s)) \<and>
        packet_seq req = Some seq \<and>
        check_sliding_window ws (senders (chan s) ! nat sid) seq (eos req) = Inr s' \<and>
        create_write_context (tablet_id_to_sorted_indexes (chan s)) chunk req = Returns (Inl st, idx') \<and>
        ch' = (chan s)\<lparr>senders := (senders (chan s))[nat sid := s'], tablet_id_to_sorted_indexes := idx'\<rparr>"
      then obtain sid seq sn where a: "sender_id req = Some sid" "nat sid < length (senders (chan s))"
        "packet_seq req = Some seq"
        "check_sliding_window ws (senders (chan s) ! nat sid) seq (eos req) = Inr sn"
        "senders ch' = (senders (chan s))[nat sid := sn]"
        by auto
      have "call_key req = Some (nat sid, seq)" using a(1,3) by (simp add: call_key_def)
      then show ?thesis
        using check_sliding_window_Inr[OF a(4)] a(2,5) ret(2) by auto
    qed
  next
    case wait
    from submit_Wait[OF wait(1)] obtain sid seq sn where a:
      "sender_id req = Some sid" "nat sid < length (senders (chan s))"
      "packet_seq req = Some seq"
      "check_sliding_window ws (senders (chan s) ! nat sid) seq (eos req) = Inr sn"
      "senders ch' = (senders (chan s))[nat sid := sn]"
      by auto
    have "call_key req = Some (nat sid, seq)" using a(1,3) by (simp add: call_key_def)
    then show ?thesis
      using check_sliding_window_Inr[OF a(4)] a(2,5) wait(2,3) by auto
  qed
qed

text \<open>The effect of one step on one sender slot.\<close>

lemma step_sender:
  assumes "step ws s ev = Some s'" and "sys_inv ws s" and "i < length (senders (chan s))"
  defines "sd \<equiv> senders (chan s) ! i" and "sd' \<equiv> senders (chan s') ! i"
  defines "D \<equiv> {last_sliding_packet_seq sd <.. last_sliding_packet_seq sd'}"
  shows "last_sliding_packet_seq sd \<le> last_sliding_packet_seq sd'"
    and "set (receive_sliding_window sd) - set (receive_sliding_window sd') = D"
    and "set (success_sliding_window sd) - set (success_sliding_window sd') = D \<inter> set (success_sliding_window sd)"
    and "D \<inter> set (success_sliding_window sd') = {}"
    and "D \<subseteq> set (success_sliding_window sd)
           \<union> (case ev of Resume sid seq \<Rightarrow> if sid = i then {seq} else {} | _ \<Rightarrow> {})"
    and "set (success_sliding_window sd') \<subseteq> set (success_sliding_window sd)
           \<union> (case ev of Resume sid seq \<Rightarrow> if sid = i then {seq} else {} | _ \<Rightarrow> {})"
proof -
  have inv: "sender_inv ws sd" using assms(2,3) by (simp add: sys_inv_def sd_def)
  have all: "last_sliding_packet_seq sd \<le> last_sliding_packet_seq sd' \<and>
     set (receive_sliding_window sd) - set (receive_sliding_window sd') = D \<and>
     set (success_sliding_window sd) - set (success_sliding_window sd') = D \<inter> set (success_sliding_window sd) \<and>
     D \<inter> set (success_sliding_window sd') = {} \<and>
     D \<subseteq> set (success_sliding_window sd)
           \<union> (case ev of Resume sid seq \<Rightarrow> if sid = i then {seq} else {} | _ \<Rightarrow> {}) \<and>
     set (success_sliding_window sd') \<subseteq> set (success_sliding_window sd)
           \<union> (case ev of Resume sid seq \<Rightarrow> if sid = i then {seq} else {} | _ \<Rightarrow> {})"
  proof (cases ev)
    case (Add_chunk chunk req)
    have "sd' = sd \<or> (\<exists>seq. sd' = sd\<lparr>receive_sliding_window := set_insert seq (receive_sliding_window sd)\<rparr>)"
      using step_Add_chunk_senders[OF assms(1)[unfolded Add_chunk]] assms(3)
      unfolding sd_def sd'_def
      by (cases "senders (chan s') = senders (chan s)") (auto simp: nth_list_update split: if_splits)
    then show ?thesis using Add_chunk unfolding D_def by auto
  next
    case (Resume sid seq)
    note r = step_Resume[OF assms(1)[unfolded Resume]]
    from r(2) obtain ch' where c: "add_chunk_complete ws (chan s) sid seq = Some (Returns ch')"
      and s': "s' = s\<lparr>chan := ch', waiting := remove1 (sid, seq) (waiting s)\<rparr>" by blast
    have w: "sid < length (senders (chan s))" "seq \<in> set (receive_sliding_window (senders (chan s) ! sid))"
      using assms(2) r(1) by (auto simp: sys_inv_def)
    have old: "sender_inv ws (senders (chan s) ! sid)"
      using assms(2) w(1) by (simp add: sys_inv_def)
    from complete_Returns[OF c old w(2)] obtain s2 where s2:
      "ch' = (chan s)\<lparr>senders := (senders (chan s))[sid := s2]\<rparr>"
      "last_sliding_packet_seq (senders (chan s) ! sid) \<le> last_sliding_packet_seq s2"
      "set (receive_sliding_window s2) = set (receive_sliding_window (senders (chan s) ! sid))
          - {last_sliding_packet_seq (senders (chan s) ! sid) <.. last_sliding_packet_seq s2}"
      "set (success_sliding_window s2) = insert seq (set (success_sliding_window (senders (chan s) ! sid)))
          - {last_sliding_packet_seq (senders (chan s) ! sid) <.. last_sliding_packet_seq s2}"
      "{last_sliding_packet_seq (senders (chan s) ! sid) <.. last_sliding_packet_seq s2}
          \<subseteq> insert seq (set (success_sliding_window (senders (chan s) ! sid)))"
      by blast
    show ?thesis
    proof (cases "sid = i")
      case False
      then have "sd' = sd" unfolding sd_def sd'_def s' s2(1) by simp
      then show ?thesis using Resume False unfolding D_def by auto
    next
      case True
      then have sd': "sd' = s2" using assms(3) unfolding sd'_def s' s2(1) by simp
      have sub: "insert seq (set (success_sliding_window sd)) \<subseteq> set (receive_sliding_window sd)"
        using inv w(2) True by (auto simp: sender_inv_def sd_def)
      note f = s2(2-5)[folded sd_def[unfolded True[symmetric]], folded sd', folded D_def]
      show ?thesis using f sub Resume True by auto
    qed
  qed
  show "last_sliding_packet_seq sd \<le> last_sliding_packet_seq sd'"
    and "set (receive_sliding_window sd) - set (receive_sliding_window sd') = D"
    and "set (success_sliding_window sd) - set (success_sliding_window sd') = D \<inter> set (success_sliding_window sd)"
    and "D \<inter> set (success_sliding_window sd') = {}"
    and "D \<subseteq> set (success_sliding_window sd)
           \<union> (case ev of Resume sid seq \<Rightarrow> if sid = i then {seq} else {} | _ \<Rightarrow> {})"
    and "set (success_sliding_window sd') \<subseteq> set (success_sliding_window sd)
           \<union> (case ev of Resume sid seq \<Rightarrow> if sid = i then {seq} else {} | _ \<Rightarrow> {})"
    using all by blast+
qed


lemma step_poisoned:
  assumes "step ws s ev = Some s'" and "sys_inv ws s" and "poisoned sid seq s"
  shows "poisoned sid seq s'"
proof -
  have i: "sid < length (senders (chan s))" using assms(3) by (simp add: poisoned_def)
  note ss = step_sender[OF assms(1,2) i]
  have nores: "ev \<noteq> Resume sid seq"
    using step_Resume(1)[of ws s sid seq s'] assms(1,3) by (auto simp: poisoned_def)
  then have C: "(case ev of Resume a b \<Rightarrow> if a = sid then {b} else {} | _ \<Rightarrow> {}) \<subseteq> - {seq}"
    by (cases ev) auto
  have 1: "seq \<in> set (receive_sliding_window (senders (chan s') ! sid))"
    using ss(2,5) C assms(3) unfolding poisoned_def by blast
  have 2: "seq \<notin> set (success_sliding_window (senders (chan s') ! sid))"
    using ss(6) C assms(3) unfolding poisoned_def by blast
  have 3: "(sid, seq) \<notin> set (waiting s')"
  proof (cases ev)
    case (Add_chunk chunk req)
    from step_Add_chunk_senders[OF assms(1)[unfolded Add_chunk]] assms(3)
    show ?thesis unfolding poisoned_def by auto
  next
    case (Resume a b)
    from step_Resume(2)[OF assms(1)[unfolded Resume]] assms(3)
    show ?thesis unfolding poisoned_def by (auto dest: notin_set_remove1)
  qed
  show ?thesis
    using 1 2 3 i step_length_senders[OF assms(1)] by (simp add: poisoned_def)
qed

lemma run_poisoned:
  assumes "run ws s evs = Some s'" and "sys_inv ws s" and "poisoned sid seq s"
  shows "poisoned sid seq s'"
  using assms
proof (induction evs arbitrary: s)
  case Nil
  then show ?case by simp
next
  case (Cons ev evs)
  from Cons.prems(1) obtain s1 where s1: "step ws s ev = Some s1" "run ws s1 evs = Some s'"
    by (auto split: option.splits)
  show ?case
    by (rule Cons.IH[OF s1(2) step_sys_inv[OF s1(1) Cons.prems(2)]
          step_poisoned[OF s1(1) Cons.prems(2,3)]])
qed

subsection \<open>The concrete channel\<close>

lemma example_open: "open_channel example_env example_params = Opened example_channel"
  by (simp add: open_channel_def example_env_def example_params_def example_channel_def
      emplace_def sorted_indexes_def upt_rec numeral_eq_Suc)

lemma example_run: "run 2 (initial example_channel) example_trace = Some example_state"
  by code_simp

lemma example_run_3: "run 2 (initial example_channel) (take 3 example_trace) = Some example_state_3"
  by code_simp

lemma example_step_4: "step 2 example_state_3 (Resume 0 1) = Some example_state_4"
  by code_simp

lemma example_run_poisoned:
  "run 2 example_state_poisoned [Resume 0 2] = Some example_state_poisoned_later"
  by code_simp

lemma out_of_order_run:
  "run 40 (initial example_channel) out_of_order_trace = Some out_of_order_state"
  by code_simp

subsection \<open>The close sequence along an execution\<close>

lemma commit_or_abort_close: "c \<in> set (commit_or_abort P tw) \<Longrightarrow> is_close_call c"
  by (auto simp: commit_or_abort_def split: if_splits)

















subsection \<open>The three passes of the scatter\<close>

lemma bucket_Suc: "bucket key (Suc m) k = bucket key m k @ (if key m = k then [m] else [])"
  by (simp add: bucket_def)

lemma length_bucket_le: "m \<le> n \<Longrightarrow> length (bucket key m k) \<le> length (bucket key n k)"
proof (induction n)
  case 0
  then show ?case by simp
next
  case (Suc n)
  then show ?case by (cases "m = Suc n") (auto simp: bucket_Suc)
qed

lemma filter_less_Suc:
  "length (filter (\<lambda>r. key r < Suc k) xs) =
   length (filter (\<lambda>r. key r < k) xs) + length (filter (\<lambda>r. (key r :: nat) = k) xs)"
  by (induction xs) auto

lemma bucket_start_Suc:
  "bucket_start key n (Suc k) = bucket_start key n k + length (bucket key n k)"
  by (simp add: bucket_start_def bucket_def filter_less_Suc)

lemma bucket_start_mono: "k \<le> k' \<Longrightarrow> bucket_start key n k \<le> bucket_start key n k'"
  by (induction k') (auto simp: bucket_start_Suc le_Suc_eq)

lemma bucket_start_0 [simp]: "bucket_start key n 0 = 0"
  by (simp add: bucket_start_def)

lemma bucket_start_total:
  assumes "\<forall>r<n. key r < K"
  shows "bucket_start key n K = n"
proof -
  have "filter (\<lambda>r. key r < K) [0..<n] = [0..<n]"
    using assms by (simp add: filter_id_conv)
  then show ?thesis by (simp add: bucket_start_def)
qed

lemma bucket_end_le:
  assumes "\<forall>r<n. key r < K" and "k < K"
  shows "bucket_start key n k + length (bucket key n k) \<le> n"
proof -
  have "bucket_start key n (Suc k) \<le> bucket_start key n K"
    using assms(2) by (intro bucket_start_mono) simp
  then show ?thesis using bucket_start_total[OF assms(1)] by (simp add: bucket_start_Suc)
qed

lemma bucket_nth:
  assumes "m < n" and "key m = k"
  shows "length (bucket key m k) < length (bucket key n k)"
    and "bucket key n k ! length (bucket key m k) = m"
proof -
  have "[0..<n] = [0..<m] @ m # [Suc m..<n]"
    using assms(1) by (metis le_add2 less_imp_add_positive upt_add_eq_append upt_conv_Cons
        less_or_eq_imp_le zero_le le_add_diff_inverse upt_rec)
  then have b: "bucket key n k = bucket key m k @ m # filter (\<lambda>r. key r = k) [Suc m..<n]"
    using assms(2) by (simp add: bucket_def)
  show "length (bucket key m k) < length (bucket key n k)" unfolding b by simp
  show "bucket key n k ! length (bucket key m k) = m" unfolding b by simp
qed

text \<open>Two different buckets do not overlap.\<close>

lemma bucket_disjoint:
  assumes "k \<noteq> k'" and "p < length (bucket key n k)" and "p' < length (bucket key n k')"
  shows "bucket_start key n k + p \<noteq> bucket_start key n k' + p'"
proof (cases "k < k'")
  case True
  then have "bucket_start key n (Suc k) \<le> bucket_start key n k'"
    by (intro bucket_start_mono) simp
  then show ?thesis using assms(2) by (simp add: bucket_start_Suc)
next
  case False
  then have "k' < k" using assms(1) by simp
  then have "bucket_start key n (Suc k') \<le> bucket_start key n k"
    by (intro bucket_start_mono) simp
  then show ?thesis using assms(3) by (simp add: bucket_start_Suc)
qed

lemma u32_id: "x < 2 ^ 32 \<Longrightarrow> u32 (int x) = x"
  by (simp add: u32_def nat_mod_distrib flip: of_nat_power)

lemma u32_pred: "0 < x \<Longrightarrow> x < 2 ^ 32 \<Longrightarrow> u32 (int x - 1) = x - 1"
  using u32_id[of "x - 1"] by (simp add: of_nat_diff)

lemma index_or_insert_present:
  "map_of idx t = Some c \<Longrightarrow> index_or_insert idx t = (idx, c)"
  by (simp add: index_or_insert_def)

text \<open>The counting pass adds, to every counter, the number of rows of its ordinal.\<close>

lemma count_rows_present:
  assumes "\<forall>t \<in> set ts. \<exists>c. map_of idx t = Some c \<and> c < length sp"
    and "\<forall>c < length sp. sp ! c + length (filter (\<lambda>t. map_of idx t = Some c) ts) < 2 ^ 32"
  shows "\<exists>sp'. count_rows idx sp ts = Returns (idx, sp') \<and> length sp' = length sp \<and>
           (\<forall>c < length sp. sp' ! c = sp ! c + length (filter (\<lambda>t. map_of idx t = Some c) ts))"
  using assms
proof (induction ts arbitrary: sp)
  case Nil
  then show ?case by simp
next
  case (Cons t ts)
  from Cons.prems(1) obtain c where c: "map_of idx t = Some c" "c < length sp" by auto
  have b: "sp ! c + 1 < 2 ^ 32"
    using Cons.prems(2) c by (fastforce dest: spec[of _ c])
  let ?sp = "sp[c := sp ! c + 1]"
  have u: "u32 (int (sp ! c) + 1) = sp ! c + 1"
    using b u32_id[of "sp ! c + 1"] by (simp add: add.commute)
  have step: "count_rows idx sp (t # ts) = count_rows idx ?sp ts"
    using c by (simp add: index_or_insert_present u)
  have 1: "\<forall>t \<in> set ts. \<exists>c. map_of idx t = Some c \<and> c < length ?sp"
    using Cons.prems(1) by simp
  have 2: "\<forall>d < length ?sp. ?sp ! d + length (filter (\<lambda>t. map_of idx t = Some d) ts) < 2 ^ 32"
  proof (intro allI impI)
    fix d assume d: "d < length ?sp"
    then have "sp ! d + length (filter (\<lambda>t. map_of idx t = Some d) (t # ts)) < 2 ^ 32"
      using Cons.prems(2) by simp
    then show "?sp ! d + length (filter (\<lambda>t. map_of idx t = Some d) ts) < 2 ^ 32"
      using c d by (cases "d = c") (auto simp: nth_list_update)
  qed
  from Cons.IH[OF 1 2] obtain sp' where sp': "count_rows idx ?sp ts = Returns (idx, sp')"
    "length sp' = length sp"
    "\<forall>d < length sp. sp' ! d = ?sp ! d + length (filter (\<lambda>t. map_of idx t = Some d) ts)"
    by auto
  have "\<forall>d < length sp. sp' ! d = sp ! d + length (filter (\<lambda>t. map_of idx t = Some d) (t # ts))"
    using sp'(3) c by (auto simp: nth_list_update)
  with step sp'(1,2) show ?case by auto
qed

text \<open>The running sums turn the counters into the ends of the buckets.\<close>

lemma prefix_sums_upto:
  assumes "length sp = Suc K" and "m \<le> K"
    and "\<forall>k<K. sp ! k = length (bucket key n k)" and "sp ! K = 0"
    and "\<forall>r<n. key r < K" and "n < 2 ^ 32"
  defines "res \<equiv> fold (\<lambda>i p. p[i := u32 (int (p ! i) + int (p ! (i - 1)))]) [1..<Suc m] sp"
  shows "length res = Suc K \<and>
         (\<forall>i\<le>m. res ! i = bucket_start key n (if i < K then Suc i else K)) \<and>
         (\<forall>i. m < i \<and> i \<le> K \<longrightarrow> res ! i = sp ! i)"
  using assms(2) unfolding res_def
proof (induction m)
  case 0
  have "0 < K \<Longrightarrow> sp ! 0 = bucket_start key n (Suc 0)"
    using assms(3) by (simp add: bucket_start_Suc)
  moreover have "K = 0 \<Longrightarrow> sp ! 0 = bucket_start key n 0" using assms(4) by simp
  ultimately show ?case using assms(1) by auto
next
  case (Suc m)
  let ?f = "\<lambda>i p. p[i := u32 (int (p ! i) + int (p ! (i - 1)))]"
  let ?r = "fold ?f [1..<Suc m] sp"
  from Suc have IH: "length ?r = Suc K"
    "\<forall>i\<le>m. ?r ! i = bucket_start key n (if i < K then Suc i else K)"
    "\<forall>i. m < i \<and> i \<le> K \<longrightarrow> ?r ! i = sp ! i"
    by auto
  have unf: "fold ?f [1..<Suc (Suc m)] sp = ?f (Suc m) ?r" by simp
  have m: "m < K" using Suc.prems by simp
  have a: "?r ! m = bucket_start key n (Suc m)" using IH(2) m by simp
  have b: "?r ! Suc m = sp ! Suc m" using IH(3) Suc.prems by simp
  have tot: "bucket_start key n K = n" by (rule bucket_start_total[OF assms(5)])
  have val: "?r ! Suc m + ?r ! m = bucket_start key n (if Suc m < K then Suc (Suc m) else K)"
  proof (cases "Suc m < K")
    case True
    then show ?thesis using a b assms(3) by (simp add: bucket_start_Suc)
  next
    case False
    then have "Suc m = K" using Suc.prems by simp
    then show ?thesis using a b assms(4) by simp
  qed
  have "bucket_start key n (if Suc m < K then Suc (Suc m) else K) \<le> n"
    using bucket_start_mono[of _ K key n] tot by (metis Suc_leI le_refl)
  then have "?r ! Suc m + ?r ! m < 2 ^ 32" using val assms(6) by simp
  then have u: "u32 (int (?r ! Suc m) + int (?r ! m)) = ?r ! Suc m + ?r ! m"
    using u32_id[of "?r ! Suc m + ?r ! m"] by simp
  have res: "fold ?f [1..<Suc (Suc m)] sp = ?r[Suc m := ?r ! Suc m + ?r ! m]"
    unfolding unf using u by simp
  show ?case
    unfolding res using IH val Suc.prems
    by (auto simp: nth_list_update le_Suc_eq)
qed

text \<open>
  The scatter pass over the rows \<open>m - 1, \<dots>, 0\<close>, started where every bucket \<open>k\<close> has its
  rows from \<open>m\<close> on in place and its start point stands behind the rows below \<open>m\<close>.
\<close>

lemma scatter_rows_buckets:
  assumes "\<forall>r<n. map_of idx (tids ! r) = Some (key r)" and "\<forall>r<n. key r < K"
    and "n < 2 ^ 32" and "m \<le> n" and "length rows = n" and "length sp = Suc K"
    and "\<forall>k<K. sp ! k = bucket_start key n k + length (bucket key m k)"
    and "\<forall>k<K. \<forall>p. length (bucket key m k) \<le> p \<and> p < length (bucket key n k) \<longrightarrow>
           rows ! (bucket_start key n k + p) = bucket key n k ! p"
  shows "\<exists>rows' sp'. scatter_rows idx tids (rev [0..<m]) rows sp = Returns (Inr (rows', sp')) \<and>
           length rows' = n \<and> length sp' = Suc K \<and> sp' ! K = sp ! K \<and>
           (\<forall>k<K. sp' ! k = bucket_start key n k) \<and>
           (\<forall>k<K. \<forall>p<length (bucket key n k).
              rows' ! (bucket_start key n k + p) = bucket key n k ! p)"
  using assms(4-8)
proof (induction m arbitrary: rows sp)
  case 0
  then show ?case by (simp add: bucket_def)
next
  case (Suc m)
  let ?c = "key m"
  let ?q = "length (bucket key m ?c)"
  let ?pos = "bucket_start key n ?c + ?q"
  have m: "m < n" using Suc.prems(1) by simp
  have c: "?c < K" "map_of idx (tids ! m) = Some ?c" using assms(1,2) m by auto
  have spc: "sp ! ?c = Suc ?pos"
    using Suc.prems(4) c(1) by (simp add: bucket_Suc)
  note bn = bucket_nth[of m n key ?c, OF m refl]
  have pos_n: "?pos < n"
    using bucket_end_le[OF assms(2) c(1)] bn(1) by simp
  have u: "u32 (int (sp ! ?c) - 1) = ?pos"
    using u32_pred[of "sp ! ?c"] spc pos_n assms(3) by simp
  let ?rows = "rows[?pos := m]" and ?sp = "sp[?c := ?pos]"
  have step: "scatter_rows idx tids (rev [0..<Suc m]) rows sp =
              scatter_rows idx tids (rev [0..<m]) ?rows ?sp"
    using c Suc.prems(2,3) pos_n by (simp add: u)
  have 1: "\<forall>k<K. ?sp ! k = bucket_start key n k + length (bucket key m k)"
  proof (intro allI impI)
    fix k assume k: "k < K"
    show "?sp ! k = bucket_start key n k + length (bucket key m k)"
    proof (cases "k = ?c")
      case True
      then show ?thesis using Suc.prems(3) c(1) by simp
    next
      case False
      then show ?thesis using Suc.prems(4) k by (simp add: bucket_Suc)
    qed
  qed
  have 2: "\<forall>k<K. \<forall>p. length (bucket key m k) \<le> p \<and> p < length (bucket key n k) \<longrightarrow>
           ?rows ! (bucket_start key n k + p) = bucket key n k ! p"
  proof (intro allI impI)
    fix k p assume k: "k < K" and p: "length (bucket key m k) \<le> p \<and> p < length (bucket key n k)"
    show "?rows ! (bucket_start key n k + p) = bucket key n k ! p"
    proof (cases "k = ?c")
      case True
      show ?thesis
      proof (cases "p = ?q")
        case True
        with \<open>k = ?c\<close> show ?thesis using bn(2) pos_n Suc.prems(2) by simp
      next
        case False
        with p \<open>k = ?c\<close> have "length (bucket key (Suc m) k) \<le> p" by (simp add: bucket_Suc)
        with Suc.prems(5) k p have "rows ! (bucket_start key n k + p) = bucket key n k ! p"
          by blast
        with False \<open>k = ?c\<close> show ?thesis by simp
      qed
    next
      case False
      then have "length (bucket key (Suc m) k) \<le> p" using p by (simp add: bucket_Suc)
      with Suc.prems(5) k p have old: "rows ! (bucket_start key n k + p) = bucket key n k ! p"
        by blast
      have "bucket_start key n k + p \<noteq> ?pos"
        using bucket_disjoint[OF False, of p key n ?q] p bn(1) by simp
      with old show ?thesis by simp
    qed
  qed
  from Suc.IH[of ?rows ?sp, OF _ _ _ 1 2] m Suc.prems(2,3)
  obtain rows' sp' where r:
    "scatter_rows idx tids (rev [0..<m]) ?rows ?sp = Returns (Inr (rows', sp'))"
    "length rows' = n" "length sp' = Suc K" "sp' ! K = ?sp ! K"
    "\<forall>k<K. sp' ! k = bucket_start key n k"
    "\<forall>k<K. \<forall>p<length (bucket key n k). rows' ! (bucket_start key n k + p) = bucket key n k ! p"
    by auto
  have "?sp ! K = sp ! K" using c(1) by simp
  with r step show ?case by auto
qed

lemma length_filter_nth:
  "length (filter P xs) = length (filter (\<lambda>r. P (xs ! r)) [0..<length xs])"
proof -
  have "filter P xs = filter P (map ((!) xs) [0..<length xs])" by (simp add: map_nth)
  also have "\<dots> = map ((!) xs) (filter (\<lambda>r. P (xs ! r)) [0..<length xs])"
    by (simp add: filter_map comp_def)
  finally show ?thesis by (metis length_map)
qed

lemma create_write_context_buckets:
  assumes "\<forall>t \<in> set (tablet_ids req). \<exists>c. map_of idx t = Some c \<and> c < length idx"
    and "length (tablet_ids req) = n" and "n < 2 ^ 32"
    and "\<forall>r<n. map_of idx (tablet_ids req ! r) = Some (key r)"
  shows "\<exists>rows sp. create_write_context idx (Some n) req =
            Returns (Inr \<lparr>row_indexes = Some rows, channel_row_idx_start_points = Some sp\<rparr>, idx) \<and>
          length rows = n \<and> length sp = Suc (length idx) \<and> sp ! length idx = n \<and>
          (\<forall>k<length idx. sp ! k = bucket_start key n k) \<and>
          (\<forall>k<length idx. \<forall>p<length (bucket key n k).
              rows ! (bucket_start key n k + p) = bucket key n k ! p)"
proof -
  let ?tids = "tablet_ids req" and ?K = "length idx"
  have keyK: "\<forall>r<n. key r < ?K"
  proof (intro allI impI)
    fix r assume "r < n"
    then have "?tids ! r \<in> set ?tids" using assms(2) by simp
    with assms(1) obtain c where "map_of idx (?tids ! r) = Some c" "c < ?K" by blast
    with assms(4) \<open>r < n\<close> show "key r < ?K" by simp
  qed
  have cnt: "length (filter (\<lambda>t. map_of idx t = Some c) ?tids) = length (bucket key n c)" for c
  proof -
    have "filter (\<lambda>r. map_of idx (?tids ! r) = Some c) [0..<n] = filter (\<lambda>r. key r = c) [0..<n]"
      using assms(4) by (intro filter_cong) auto
    then show ?thesis
      using length_filter_nth[of "\<lambda>t. map_of idx t = Some c" ?tids] assms(2)
      by (simp add: bucket_def)
  qed
  have len_le: "length (bucket key n c) \<le> n" for c
    using length_filter_le[of "\<lambda>r. key r = c" "[0..<n]"] by (simp add: bucket_def)
  have "\<forall>t \<in> set ?tids. \<exists>c. map_of idx t = Some c \<and> c < length (replicate (?K + 1) (0::nat))"
    using assms(1) by auto
  moreover have "\<forall>c < length (replicate (?K + 1) (0::nat)).
      replicate (?K + 1) (0::nat) ! c + length (filter (\<lambda>t. map_of idx t = Some c) ?tids) < 2 ^ 32"
  proof (intro allI impI)
    fix c assume "c < length (replicate (?K + 1) (0::nat))"
    then have "replicate (?K + 1) (0::nat) ! c = 0" by (simp only: length_replicate nth_replicate)
    then show "replicate (?K + 1) (0::nat) ! c + length (filter (\<lambda>t. map_of idx t = Some c) ?tids) < 2 ^ 32"
      using len_le[of c] assms(3) unfolding cnt by linarith
  qed
  ultimately obtain counted where counted:
    "count_rows idx (replicate (?K + 1) 0) ?tids = Returns (idx, counted)"
    "length counted = Suc ?K"
    "\<forall>c < Suc ?K. counted ! c = length (bucket key n c)"
    using count_rows_present[of ?tids idx "replicate (?K + 1) 0"]
    unfolding cnt by (auto simp del: replicate_Suc simp: nth_replicate)
  have "bucket key n ?K = []"
    using keyK by (auto simp: bucket_def filter_empty_conv)
  then have cK: "counted ! ?K = 0" using counted(3) by simp
  have ck: "\<forall>k<?K. counted ! k = length (bucket key n k)" using counted(3) by simp
  note ps = prefix_sums_upto[OF counted(2) le_refl ck cK keyK assms(3), folded prefix_sums_def]
  let ?sp = "prefix_sums ?K counted"
  have sp1: "length ?sp = Suc ?K" using ps by simp
  have sp2: "\<forall>k<?K. ?sp ! k = bucket_start key n k + length (bucket key n k)"
    using ps by (simp add: bucket_start_Suc)
  have sp3: "?sp ! ?K = n" using ps bucket_start_total[OF keyK] by simp
  have r0: "\<forall>k<?K. \<forall>p. length (bucket key n k) \<le> p \<and> p < length (bucket key n k) \<longrightarrow>
           replicate n (0::nat) ! (bucket_start key n k + p) = bucket key n k ! p"
    by simp
  from scatter_rows_buckets[OF assms(4) keyK assms(3) le_refl _ sp1 sp2 r0]
  obtain rows sp where r:
    "scatter_rows idx ?tids (rev [0..<n]) (replicate n 0) ?sp = Returns (Inr (rows, sp))"
    "length rows = n" "length sp = Suc ?K" "sp ! ?K = ?sp ! ?K"
    "\<forall>k<?K. sp ! k = bucket_start key n k"
    "\<forall>k<?K. \<forall>p<length (bucket key n k). rows ! (bucket_start key n k + p) = bucket key n k ! p"
    by auto
  have "create_write_context idx (Some n) req =
      Returns (Inr \<lparr>row_indexes = Some rows, channel_row_idx_start_points = Some sp\<rparr>, idx)"
    using counted(1) r(1) assms(2) by (simp add: create_write_context_def)
  with r sp3 show ?thesis by auto
qed

subsection \<open>The sorted index stays well formed\<close>

lemma sorted_indexes_upto:
  assumes "distinct xs" and "m \<le> length xs"
  shows "fold (\<lambda>i. emplace (xs ! i) i) [0..<m] [] = zip (take m xs) [0..<m]"
  using assms(2)
proof (induction m)
  case 0
  then show ?case by simp
next
  case (Suc m)
  then have m: "m < length xs" by simp
  have "xs ! m \<notin> set (take m xs)"
    using assms(1) m by (metis distinct_take id_take_nth_drop not_distinct_conv_prefix
        distinct_append append_Cons disjoint_iff list.set_intros(1))
  then have "map_of (zip (take m xs) [0..<m]) (xs ! m) = None"
    using m by (simp add: map_of_zip_is_None)
  then have "emplace (xs ! m) m (zip (take m xs) [0..<m]) = zip (take m xs) [0..<m] @ [(xs ! m, m)]"
    by (simp add: emplace_def)
  also have "\<dots> = zip (take (Suc m) xs) [0..<Suc m]"
    using m by (simp add: take_Suc_conv_app_nth)
  finally show ?case using Suc by simp
qed

lemma sorted_indexes_zip:
  assumes "distinct tids"
  shows "sorted_indexes tids = zip (sort tids) [0..<length tids]"
  using sorted_indexes_upto[of "sort tids" "length tids"] assms
  by (simp add: sorted_indexes_def)

lemma sorted_indexes_in_range:
  assumes "distinct tids"
  shows "ordinals_in_range (sorted_indexes tids)"
  unfolding sorted_indexes_zip[OF assms] ordinals_in_range_def
  by (auto dest!: set_zip_rightD)

lemma count_rows_in_range:
  "count_rows idx sp ts = Returns (idx', sp') \<Longrightarrow> ordinals_in_range idx \<Longrightarrow> ordinals_in_range idx'"
proof (induction idx sp ts rule: count_rows.induct)
  case (1 idx sp)
  then show ?case by simp
next
  case (2 idx sp t ts)
  obtain idx1 c where i: "index_or_insert idx t = (idx1, c)" by (cases "index_or_insert idx t")
  have "ordinals_in_range idx1"
    using i "2.prems"(2)
    by (fastforce simp: index_or_insert_def ordinals_in_range_def less_Suc_eq split: option.splits)
  with 2 i show ?case by (auto split: if_splits)
qed

lemma create_write_context_in_range:
  assumes "create_write_context idx chunk req = Returns (res, idx')" and "ordinals_in_range idx"
  shows "ordinals_in_range idx'"
  using assms
  by (auto simp: create_write_context_def Let_def
      split: option.splits if_splits outcome.splits sum.splits prod.splits
      dest: count_rows_in_range)

lemma step_in_range:
  assumes "step ws s ev = Some s'" and "ordinals_in_range (tablet_id_to_sorted_indexes (chan s))"
  shows "ordinals_in_range (tablet_id_to_sorted_indexes (chan s'))"
proof (cases ev)
  case (Add_chunk chunk req)
  from step_Add_chunk[OF assms(1)[unfolded Add_chunk]] assms(2) show ?thesis
    by (auto dest!: submit_Return submit_Wait dest: create_write_context_in_range)
next
  case (Resume sid seq)
  from step_Resume(2)[OF assms(1)[unfolded Resume]] assms(2) show ?thesis
    by (auto simp: add_chunk_complete_def Let_def split: option.splits outcome.splits)
qed

lemma run_in_range:
  assumes "run ws s evs = Some s'" and "ordinals_in_range (tablet_id_to_sorted_indexes (chan s))"
  shows "ordinals_in_range (tablet_id_to_sorted_indexes (chan s'))"
  using assms
  by (induction evs arbitrary: s) (auto split: option.splits dest: step_in_range)

lemma reachable_in_range:
  assumes "open_channel env params = Opened ch0" and "distinct (map fst (tablets params))"
    and "run ws (initial ch0) evs = Some s"
  shows "ordinals_in_range (tablet_id_to_sorted_indexes (chan s))"
proof -
  have "ordinals_in_range (tablet_id_to_sorted_indexes (chan (initial ch0)))"
    using open_channel_Opened(1)[OF assms(1)] sorted_indexes_in_range[OF assms(2)]
    by (simp add: initial_def)
  from run_in_range[OF assms(3) this] show ?thesis .
qed

text \<open>A list of length \<open>n\<close> in which every number below \<open>n\<close> occurs is a permutation.\<close>

lemma mset_upt_if_all_occur:
  assumes "length rows = n" and "\<forall>r<n. r \<in> set rows"
  shows "mset rows = mset [0..<n]"
proof -
  have sub: "{0..<n} \<subseteq> set rows" using assms(2) by auto
  have "card (set rows) \<le> n" using card_length[of rows] assms(1) by simp
  then have eq: "{0..<n} = set rows"
    using sub by (intro card_seteq) auto
  then have "card (set rows) = length rows" using assms(1) by (metis card_atLeastLessThan diff_zero)
  then have "distinct rows" by (rule card_distinct)
  then show ?thesis
    using eq by (metis distinct_upt set_eq_iff_mset_eq_distinct set_upt)
qed

section \<open>Request validation and the sliding-window check\<close>

text \<open>
  Claim C9. In every state a channel reaches after \<open>open\<close>, a request without sender id,
  with a negative sender id, with a sender id not below the sender count given at \<open>open\<close>,
  or without sequence number is answered INVALID_ARGUMENT before anything is touched: the
  channel returned is the channel given (windows, \<^verbatim>\<open>_num_remaining_senders\<close>, the calls
  issued to the writers), and the execution state after the call is the state before it.
\<close>

theorem malformed_request_rejected:
  assumes "open_channel env params = Opened ch0"
    and "run ws (initial ch0) evs = Some s"
    and "sender_id req = None
         \<or> (\<exists>sid. sender_id req = Some sid \<and> (sid < 0 \<or> num_senders params \<le> sid))
         \<or> packet_seq req = None"
  shows "add_chunk_submit ws (chan s) chunk req = Return INVALID_ARGUMENT (chan s)
       \<and> step ws s (Add_chunk chunk req) = Some s"
proof -
  have "add_chunk_submit ws (chan s) chunk req = Return INVALID_ARGUMENT (chan s)"
    using assms(3) reachable_length_senders[OF assms(1,2)]
    by (auto simp: add_chunk_submit_def split: option.splits)
  then show ?thesis by (simp add: step_Return_same)
qed

theorem malformed_request_rejected_witness:
  "add_chunk_submit 40 example_channel (Some 1) ((batch 0 0 False [] [5])\<lparr>sender_id := None\<rparr>)
     = Return INVALID_ARGUMENT example_channel
   \<and> add_chunk_submit 40 example_channel (Some 1) (batch (- 1) 0 False [] [5])
     = Return INVALID_ARGUMENT example_channel
   \<and> add_chunk_submit 40 example_channel (Some 1) (batch 2 0 False [] [5])
     = Return INVALID_ARGUMENT example_channel
   \<and> add_chunk_submit 40 example_channel (Some 1) ((batch 0 0 True [10] [5])\<lparr>packet_seq := None\<rparr>)
     = Return INVALID_ARGUMENT example_channel"
  using
    malformed_request_rejected [OF example_open, of 40 "[]" "initial example_channel"
      "(batch 0 0 False [] [5])\<lparr>sender_id := None\<rparr>" "Some 1"]
    malformed_request_rejected [OF example_open, of 40 "[]" "initial example_channel"
      "batch (- 1) 0 False [] [5]" "Some 1"]
    malformed_request_rejected [OF example_open, of 40 "[]" "initial example_channel"
      "batch 2 0 False [] [5]" "Some 1"]
    malformed_request_rejected [OF example_open, of 40 "[]" "initial example_channel"
      "(batch 0 0 True [10] [5])\<lparr>packet_seq := None\<rparr>" "Some 1"]
  by (simp add: initial_def batch_def example_params_def)

text \<open>
  Claim C2. For a request with sender id in range and a sequence number \<open>seq\<close>: if \<open>seq\<close>
  is in the sender's receive window and either not in its success window or the request
  carries \<^verbatim>\<open>eos\<close>, the status is DUPLICATE_RPC_INVOCATION; if \<open>seq\<close> is in both windows
  and the request carries no \<^verbatim>\<open>eos\<close>, the status is OK; if \<open>seq\<close> is not in the receive
  window and is at most \<^verbatim>\<open>last_sliding_packet_seq\<close>, the status is OK. In all three cases
  the call returns the channel it was given, so no write has been handed to a writer and
  the sender is as it was.
\<close>

theorem duplicate_or_stale_request_answered:
  assumes "sender_id req = Some sid" and "0 \<le> sid" and "sid < int (length (senders (chan s)))"
    and "packet_seq req = Some seq"
    and "sd = senders (chan s) ! nat sid"
  shows "(seq \<in> set (receive_sliding_window sd) \<and>
            (seq \<notin> set (success_sliding_window sd) \<or> eos req) \<longrightarrow>
          add_chunk_submit ws (chan s) chunk req = Return DUPLICATE_RPC_INVOCATION (chan s)
          \<and> step ws s (Add_chunk chunk req) = Some s)
       \<and> (seq \<in> set (receive_sliding_window sd) \<and>
            seq \<in> set (success_sliding_window sd) \<and> \<not> eos req \<longrightarrow>
          add_chunk_submit ws (chan s) chunk req = Return OK (chan s)
          \<and> step ws s (Add_chunk chunk req) = Some s)
       \<and> (seq \<notin> set (receive_sliding_window sd) \<and> seq \<le> last_sliding_packet_seq sd \<longrightarrow>
          add_chunk_submit ws (chan s) chunk req = Return OK (chan s)
          \<and> step ws s (Add_chunk chunk req) = Some s)"
  using assms
  by (auto simp: add_chunk_submit_def check_sliding_window_def step_def)

theorem duplicate_or_stale_request_answered_witness:
  "add_chunk_submit 2 (chan example_state) (Some 1) (batch 0 2 False [] [5])
     = Return DUPLICATE_RPC_INVOCATION (chan example_state)
   \<and> add_chunk_submit 2 (chan example_state) None (batch 0 1 True [10] [])
     = Return DUPLICATE_RPC_INVOCATION (chan example_state)
   \<and> add_chunk_submit 2 (chan example_state) (Some 1) (batch 0 1 False [] [2])
     = Return OK (chan example_state)
   \<and> add_chunk_submit 2 (chan example_state) (Some 1) (batch 0 0 False [] [5])
     = Return OK (chan example_state)"
  using
    duplicate_or_stale_request_answered [of "batch 0 2 False [] [5]" 0 example_state 2
      "senders (chan example_state) ! 0" 2 "Some 1"]
    duplicate_or_stale_request_answered [of "batch 0 1 True [10] []" 0 example_state 1
      "senders (chan example_state) ! 0" 2 None]
    duplicate_or_stale_request_answered [of "batch 0 1 False [] [2]" 0 example_state 1
      "senders (chan example_state) ! 0" 2 "Some 1"]
    duplicate_or_stale_request_answered [of "batch 0 0 False [] [5]" 0 example_state 0
      "senders (chan example_state) ! 0" 2 "Some 1"]
  by (simp add: batch_def example_state_def example_channel_def)

text \<open>
  Claim C5. In every state a channel reaches after \<open>open\<close>, a request with sender id in
  range whose sequence number exceeds \<^verbatim>\<open>last_sliding_packet_seq + _max_sliding_window_size\<close>
  is not in the receive window, is answered INVALID_ARGUMENT, and leaves the state as it
  was.
\<close>

theorem window_bound_rejected:
  assumes "open_channel env params = Opened ch0"
    and "run ws (initial ch0) evs = Some s"
    and "sender_id req = Some sid" and "0 \<le> sid" and "sid < int (length (senders (chan s)))"
    and "packet_seq req = Some seq"
    and "seq > last_sliding_packet_seq (senders (chan s) ! nat sid) + int ws"
  shows "seq \<notin> set (receive_sliding_window (senders (chan s) ! nat sid))
       \<and> add_chunk_submit ws (chan s) chunk req = Return INVALID_ARGUMENT (chan s)
       \<and> step ws s (Add_chunk chunk req) = Some s"
proof -
  have "sys_inv ws s"
    using run_sys_inv[OF assms(2) opened_sys_inv[OF assms(1)]] .
  then have "sender_inv ws (senders (chan s) ! nat sid)"
    using assms(4,5) by (simp add: sys_inv_def)
  then have 1: "seq \<notin> set (receive_sliding_window (senders (chan s) ! nat sid))"
    using assms(7) by (auto simp: sender_inv_def)
  then have "add_chunk_submit ws (chan s) chunk req = Return INVALID_ARGUMENT (chan s)"
    using assms(3-7) by (auto simp: add_chunk_submit_def check_sliding_window_def)
  with 1 show ?thesis by (simp add: step_Return_same)
qed

theorem window_bound_rejected_witness:
  "add_chunk_submit 2 (chan example_state) (Some 1) (batch 0 3 False [] [5])
     = Return INVALID_ARGUMENT (chan example_state)
   \<and> step 2 example_state (Add_chunk (Some 1) (batch 0 3 False [] [5])) = Some example_state"
  using window_bound_rejected [OF example_open example_run, of "batch 0 3 False [] [5]" 0 3 "Some 1"]
  by (simp add: batch_def example_state_def example_channel_def)

section \<open>The sliding windows along an execution\<close>

text \<open>
  Claim C7. Take any state \<open>s\<close> a channel reaches after \<open>open\<close> through calls of
  \<^verbatim>\<open>add_chunk\<close> and their completions in any order, any further event leading to \<open>s'\<close>,
  and any sender slot \<open>i\<close>. In \<open>s\<close> the success window is a subset of the receive window.
  Over the event \<^verbatim>\<open>last_sliding_packet_seq\<close> does not decrease. With \<open>D\<close> the sequence
  numbers from the old value of \<^verbatim>\<open>last_sliding_packet_seq\<close> (exclusive) to the new one
  (inclusive), that is the values \<^verbatim>\<open>last_sliding_packet_seq + 1\<close> took when the pruning
  loop erased: what leaves the receive window is exactly \<open>D\<close>, what leaves the success
  window lies in \<open>D\<close>, nothing of \<open>D\<close> is in the success window afterwards, and every
  member of \<open>D\<close> was in the receive window and in the success window (counting the
  sequence number the completing call has just inserted there).
\<close>

theorem sliding_window_invariant:
  assumes "open_channel env params = Opened ch0"
    and "run ws (initial ch0) evs = Some s"
    and "step ws s ev = Some s'"
    and "i < length (senders (chan s))"
    and "sd = senders (chan s) ! i" and "sd' = senders (chan s') ! i"
    and "D = {last_sliding_packet_seq sd <.. last_sliding_packet_seq sd'}"
  shows "set (success_sliding_window sd) \<subseteq> set (receive_sliding_window sd)
       \<and> last_sliding_packet_seq sd \<le> last_sliding_packet_seq sd'
       \<and> set (receive_sliding_window sd) - set (receive_sliding_window sd') = D
       \<and> set (success_sliding_window sd) - set (success_sliding_window sd')
           = D \<inter> set (success_sliding_window sd)
       \<and> D \<inter> set (success_sliding_window sd') = {}
       \<and> D \<subseteq> set (receive_sliding_window sd)
       \<and> D \<subseteq> set (success_sliding_window sd)
               \<union> (case ev of Resume sid seq \<Rightarrow> if sid = i then {seq} else {} | _ \<Rightarrow> {})"
proof -
  have inv: "sys_inv ws s"
    using run_sys_inv[OF assms(2) opened_sys_inv[OF assms(1)]] .
  then have "sender_inv ws sd" using assms(4,5) by (simp add: sys_inv_def)
  then have 1: "set (success_sliding_window sd) \<subseteq> set (receive_sliding_window sd)"
    by (simp add: sender_inv_def)
  note ss = step_sender[OF assms(3) inv assms(4), folded assms(5,6), folded assms(7)]
  have "D \<subseteq> set (receive_sliding_window sd)" using ss(2) by blast
  with 1 ss show ?thesis by blast
qed

theorem sliding_window_invariant_witness:
  "last_sliding_packet_seq (senders (chan example_state_3) ! 0)
     \<le> last_sliding_packet_seq (senders (chan example_state_4) ! 0)
   \<and> set (receive_sliding_window (senders (chan example_state_3) ! 0))
       - set (receive_sliding_window (senders (chan example_state_4) ! 0)) = {- 1 <.. 0}
   \<and> {- 1 <.. 0} \<inter> set (success_sliding_window (senders (chan example_state_4) ! 0)) = {}"
  using sliding_window_invariant [OF example_open example_run_3 example_step_4, of 0
      "senders (chan example_state_3) ! 0" "senders (chan example_state_4) ! 0" "{- 1 <.. 0}"]
  by (simp add: example_state_3_def example_state_4_def example_channel_def)

text \<open>
  Claim C10. In a state reached after \<open>open\<close>, let a request with sender id in range pass
  the window check, so that its sequence number \<open>seq\<close> is inserted into the receive
  window, and let \<^verbatim>\<open>_create_write_context\<close> fail, because there is neither chunk nor
  \<^verbatim>\<open>eos\<close> or because the number of tablet ids is not the number of rows. Then
  \<^verbatim>\<open>add_chunk\<close> returns INVALID_ARGUMENT, the status of that failure, and the only change
  to the channel is the insertion into the receive window. After any further events
  \<open>seq\<close> is still in the receive window and not in the success window, and every request
  of the same sender with the same sequence number is answered DUPLICATE_RPC_INVOCATION.
\<close>

theorem failed_context_poisons_sequence:
  assumes "open_channel env params = Opened ch0"
    and "run ws (initial ch0) evs = Some s"
    and "sender_id req = Some sid" and "0 \<le> sid" and "nat sid < length (senders (chan s))"
    and "packet_seq req = Some seq"
    and "sd = senders (chan s) ! nat sid"
    and "seq \<notin> set (receive_sliding_window sd)"
    and "last_sliding_packet_seq sd < seq" and "seq \<le> last_sliding_packet_seq sd + int ws"
    and "chunk = None \<and> \<not> eos req \<or> (\<exists>n. chunk = Some n \<and> length (tablet_ids req) \<noteq> n)"
    and "run ws (s\<lparr>chan := (chan s)\<lparr>senders := (senders (chan s))
            [nat sid := sd\<lparr>receive_sliding_window := set_insert seq (receive_sliding_window sd)\<rparr>]\<rparr>\<rparr>)
            evs' = Some s'"
    and "sender_id req' = Some sid" and "packet_seq req' = Some seq"
  shows "add_chunk_submit ws (chan s) chunk req =
           Return INVALID_ARGUMENT ((chan s)\<lparr>senders := (senders (chan s))
            [nat sid := sd\<lparr>receive_sliding_window := set_insert seq (receive_sliding_window sd)\<rparr>]\<rparr>)
       \<and> seq \<in> set (receive_sliding_window (senders (chan s') ! nat sid))
       \<and> seq \<notin> set (success_sliding_window (senders (chan s') ! nat sid))
       \<and> add_chunk_submit ws (chan s') chunk' req' = Return DUPLICATE_RPC_INVOCATION (chan s')"
proof -
  let ?ch1 = "(chan s)\<lparr>senders := (senders (chan s))
            [nat sid := sd\<lparr>receive_sliding_window := set_insert seq (receive_sliding_window sd)\<rparr>]\<rparr>"
  let ?s1 = "s\<lparr>chan := ?ch1\<rparr>"
  have inv: "sys_inv ws s"
    using run_sys_inv[OF assms(2) opened_sys_inv[OF assms(1)]] .
  have chk: "check_sliding_window ws sd seq (eos req) =
      Inr (sd\<lparr>receive_sliding_window := set_insert seq (receive_sliding_window sd)\<rparr>)"
    using assms(8-10) by (simp add: check_sliding_window_def)
  have ctx: "create_write_context (tablet_id_to_sorted_indexes (chan s)) chunk req
      = Returns (Inl INVALID_ARGUMENT, tablet_id_to_sorted_indexes (chan s))"
    using assms(11) by (auto simp: create_write_context_def)
  have sub: "add_chunk_submit ws (chan s) chunk req = Return INVALID_ARGUMENT ?ch1"
    using assms(3-6) chk[unfolded assms(7)] ctx
    by (simp add: add_chunk_submit_def assms(7))
  then have st: "step ws s (Add_chunk chunk req) = Some ?s1" by (simp add: step_def)
  have inv1: "sys_inv ws ?s1" by (rule step_sys_inv[OF st inv])
  have "seq \<notin> set (success_sliding_window sd)"
    using inv assms(5,7,8) by (auto simp: sys_inv_def sender_inv_def)
  moreover have "(nat sid, seq) \<notin> set (waiting s)"
    using inv assms(7,8) by (auto simp: sys_inv_def)
  ultimately have p1: "poisoned (nat sid) seq ?s1"
    using assms(5) by (simp add: poisoned_def)
  have p: "poisoned (nat sid) seq s'" by (rule run_poisoned[OF assms(12) inv1 p1])
  then have "add_chunk_submit ws (chan s') chunk' req' = Return DUPLICATE_RPC_INVOCATION (chan s')"
    using assms(4,13,14)
    by (auto simp: poisoned_def add_chunk_submit_def check_sliding_window_def)
  with sub p show ?thesis by (simp add: poisoned_def)
qed

theorem failed_context_poisons_sequence_witness:
  "add_chunk_submit 2 (chan example_state) None (batch 1 0 False [] [])
     = Return INVALID_ARGUMENT (chan example_state_poisoned)
   \<and> add_chunk_submit 2 (chan example_state_poisoned_later) (Some 1) (batch 1 0 False [] [5])
     = Return DUPLICATE_RPC_INVOCATION (chan example_state_poisoned_later)"
  using failed_context_poisons_sequence [OF example_open example_run,
      of "batch 1 0 False [] []" 1 0 "senders (chan example_state) ! 1" None "[Resume 0 2]"
         example_state_poisoned_later "batch 1 0 False [] [5]" "Some 1"]
    example_run_poisoned
  by (simp add: batch_def example_state_def example_state_poisoned_def
      example_state_poisoned_later_def example_channel_def)

section \<open>The pruning loop\<close>

text \<open>
  Claim C6 says that the pruning loop of every completion terminates, also when the
  smallest completed sequence number is not \<^verbatim>\<open>last_sliding_packet_seq + 1\<close>. It does not.
  With a window size of 40, let sender 0 send the batches 0 to 21 and let the writes of
  1 to 20 complete. The channel reaches a state in which the call for batch 21 waits at
  the latch, the success window of the sender holds 1 to 20 and
  \<^verbatim>\<open>last_sliding_packet_seq\<close> is \<open>-1\<close>. When that call resumes it inserts 21; the window
  then has 21 entries, more than 20, its smallest is 1 and not 0, so the body of the
  \<^verbatim>\<open>while\<close> at line 293 does nothing and its condition stays true: the second half of
  \<^verbatim>\<open>add_chunk\<close> does not return.
\<close>

theorem pruning_loop_never_returns:
  "run 40 (initial example_channel) out_of_order_trace = Some out_of_order_state
   \<and> (0, 21) \<in> set (waiting out_of_order_state)
   \<and> success_sliding_window (senders (chan out_of_order_state) ! 0) = [1..20]
   \<and> last_sliding_packet_seq (senders (chan out_of_order_state) ! 0) = - 1
   \<and> add_chunk_complete 40 (chan out_of_order_state) 0 21 = None
   \<and> step 40 out_of_order_state (Resume 0 21) = None"
proof -
  let ?sd = "senders (chan out_of_order_state) ! 0"
  have sd: "?sd = \<lparr>receive_sliding_window = [0..21], success_sliding_window = [1..20],
       last_sliding_packet_seq = - 1\<rparr>"
    by (simp add: out_of_order_state_def)
  have w: "waiting out_of_order_state = [(0, 21), (0, 0)]"
    by (simp add: out_of_order_state_def)
  let ?s1 = "?sd\<lparr>success_sliding_window := set_insert 21 (success_sliding_window ?sd)\<rparr>"
  have ins: "set_insert 21 [1..20] = 1 # [2..21]" by code_simp
  have rcv: "[0..21] = 0 # [1..21]" by code_simp
  have "prune_loop 40 ?s1 = None"
  proof (rule prune_loop_spins)
    show "success_sliding_window ?s1 = 1 # [2..21]"
      unfolding sd by (simp add: ins)
    show "receive_sliding_window ?s1 = 0 # [1..21]"
      unfolding sd by (simp add: rcv)
    show "40 div 2 < length (success_sliding_window ?s1)"
      unfolding sd by (simp add: ins)
    show "last_sliding_packet_seq ?s1 + 1 \<noteq> 1 \<or> (1::int) \<noteq> 0" by simp
  qed
  then have c: "add_chunk_complete 40 (chan out_of_order_state) 0 21 = None"
    by (simp add: add_chunk_complete_def Let_def)
  then have "step 40 out_of_order_state (Resume 0 21) = None" by (simp add: step_def w)
  with out_of_order_run sd w c show ?thesis by simp
qed

section \<open>Closing the channel\<close>






text \<open>
  The executions above run \<^verbatim>\<open>_close_sender\<close> and the close sequence of a call in one
  piece. The source does not: \<^verbatim>\<open>_close_sender\<close> decrements the counter at line 332 and
  takes the lock on \<^verbatim>\<open>_partition_ids\<close> only at line 334. In the concrete channel let
  sender 0, whose closing batch names partition 10, decrement the counter to one, and let
  sender 1 then decrement it to zero, record its own partition ids (none) and run the
  close sequence before sender 0 records partition 10. Tablet 5 of partition 10 is then
  aborted, although partition 10 is recorded in the end.
\<close>

lemma close_sender_overlap:
  "(case fetch_sub_remaining_senders example_channel of (n0, c0) \<Rightarrow>
    case fetch_sub_remaining_senders c0 of (n1, c1) \<Rightarrow>
      (n0 - 1, n1 - 1,
       record_partitions (commit_or_abort_writers (record_partitions c1 [])) [10]))
   = (1, 0, example_channel
              \<lparr>num_remaining_senders := 0, partition_ids := {10},
               writer_calls := [Abort 5 False, Abort 2 False]\<rparr>)"
  by (simp add: fetch_sub_remaining_senders_def record_partitions_def
      commit_or_abort_writers_def commit_or_abort_def example_channel_def)

section \<open>The row scatter\<close>

text \<open>
  Claim C1. Let the channel be opened with pairwise different tablet ids and be in any
  state it reaches afterwards, and let a batch have a chunk of \<open>n\<close> rows, one tablet id
  per row, all of them keys of \<^verbatim>\<open>_tablet_id_to_sorted_indexes\<close> (\<open>n\<close> is an \<^verbatim>\<open>int\<close> in the
  request, hence below \<open>2^31\<close>). Then \<^verbatim>\<open>_create_write_context\<close> returns a context and leaves
  the index as it is; \<^verbatim>\<open>_row_indexes\<close> is a permutation of \<open>0, \<dots>, n - 1\<close>; and for every
  ordinal \<open>i\<close> the entries of \<^verbatim>\<open>_row_indexes\<close> from start point \<open>i\<close> up to start point
  \<open>i + 1\<close> are the rows whose tablet id has ordinal \<open>i\<close>, each once, in increasing order.
\<close>

theorem scatter_is_stable_partition:
  assumes "open_channel env params = Opened ch0"
    and "distinct (map fst (tablets params))"
    and "run ws (initial ch0) evs = Some s"
    and "idx = tablet_id_to_sorted_indexes (chan s)"
    and "set (tablet_ids req) \<subseteq> fst ` set idx"
    and "length (tablet_ids req) = n" and "n < 2 ^ 31"
  shows "\<exists>rows sp.
           create_write_context idx (Some n) req =
             Returns (Inr \<lparr>row_indexes = Some rows, channel_row_idx_start_points = Some sp\<rparr>, idx)
         \<and> mset rows = mset [0..<n]
         \<and> length sp = length idx + 1
         \<and> (\<forall>i<length idx.
               sp ! i \<le> sp ! Suc i \<and> sp ! Suc i \<le> n
             \<and> take (sp ! Suc i - sp ! i) (drop (sp ! i) rows)
                 = filter (\<lambda>r. map_of idx (tablet_ids req ! r) = Some i) [0..<n]
             \<and> sorted_wrt (<) (take (sp ! Suc i - sp ! i) (drop (sp ! i) rows)))"
proof -
  let ?tids = "tablet_ids req" and ?K = "length idx"
  define key where "key = (\<lambda>r. the (map_of idx (?tids ! r)))"
  have wf: "ordinals_in_range idx"
    unfolding assms(4) by (rule reachable_in_range[OF assms(1,2,3)])
  have present: "\<forall>t \<in> set ?tids. \<exists>c. map_of idx t = Some c \<and> c < ?K"
  proof
    fix t assume "t \<in> set ?tids"
    with assms(5) have "t \<in> fst ` set idx" by blast
    then obtain c where c: "map_of idx t = Some c"
      by (metis map_of_eq_None_iff not_Some_eq)
    then have "(t, c) \<in> set idx" by (rule map_of_SomeD)
    with wf have "c < ?K" by (force simp: ordinals_in_range_def)
    with c show "\<exists>c. map_of idx t = Some c \<and> c < ?K" by blast
  qed
  have key: "\<forall>r<n. map_of idx (?tids ! r) = Some (key r)"
  proof (intro allI impI)
    fix r assume "r < n"
    then have "?tids ! r \<in> set ?tids" using assms(6) by simp
    with present show "map_of idx (?tids ! r) = Some (key r)" by (auto simp: key_def)
  qed
  have keyK: "\<forall>r<n. key r < ?K"
  proof (intro allI impI)
    fix r assume r: "r < n"
    then have "?tids ! r \<in> set ?tids" using assms(6) by simp
    with present key r show "key r < ?K" by fastforce
  qed
  have n32: "n < 2 ^ 32" using assms(7) by simp
  from create_write_context_buckets[OF present assms(6) n32 key]
  obtain rows sp where c:
    "create_write_context idx (Some n) req =
       Returns (Inr \<lparr>row_indexes = Some rows, channel_row_idx_start_points = Some sp\<rparr>, idx)"
    "length rows = n" "length sp = Suc ?K" "sp ! ?K = n"
    "\<forall>k<?K. sp ! k = bucket_start key n k"
    "\<forall>k<?K. \<forall>p<length (bucket key n k). rows ! (bucket_start key n k + p) = bucket key n k ! p"
    by blast
  have spS: "sp ! Suc i = bucket_start key n i + length (bucket key n i)" if "i < ?K" for i
  proof (cases "Suc i < ?K")
    case True
    then show ?thesis using c(5) by (simp add: bucket_start_Suc)
  next
    case False
    then have "Suc i = ?K" using that by simp
    then show ?thesis
      using c(4) bucket_start_total[OF keyK] bucket_start_Suc[of key n i] by simp
  qed
  have all: "\<forall>r<n. r \<in> set rows"
  proof (intro allI impI)
    fix r assume r: "r < n"
    let ?k = "key r" and ?p = "length (bucket key r (key r))"
    note bn = bucket_nth[of r n key ?k, OF r refl]
    have k: "?k < ?K" using keyK r by simp
    have "rows ! (bucket_start key n ?k + ?p) = r" using c(6) k bn by simp
    moreover have "bucket_start key n ?k + ?p < length rows"
      using bucket_end_le[OF keyK k] bn(1) c(2) by simp
    ultimately show "r \<in> set rows" by (metis nth_mem)
  qed
  have perm: "mset rows = mset [0..<n]" by (rule mset_upt_if_all_occur[OF c(2) all])
  have buckets: "sp ! i \<le> sp ! Suc i \<and> sp ! Suc i \<le> n
             \<and> take (sp ! Suc i - sp ! i) (drop (sp ! i) rows)
                 = filter (\<lambda>r. map_of idx (?tids ! r) = Some i) [0..<n]
             \<and> sorted_wrt (<) (take (sp ! Suc i - sp ! i) (drop (sp ! i) rows))"
    if i: "i < ?K" for i
  proof -
    have s: "sp ! i = bucket_start key n i" using c(5) i by simp
    note e = spS[OF i]
    have le: "bucket_start key n i + length (bucket key n i) \<le> n"
      by (rule bucket_end_le[OF keyK i])
    have "take (length (bucket key n i)) (drop (bucket_start key n i) rows) = bucket key n i"
    proof (rule nth_equalityI)
      show "length (take (length (bucket key n i)) (drop (bucket_start key n i) rows))
          = length (bucket key n i)"
        using le c(2) by simp
    next
      fix p assume "p < length (take (length (bucket key n i)) (drop (bucket_start key n i) rows))"
      then have p: "p < length (bucket key n i)" by simp
      then show "take (length (bucket key n i)) (drop (bucket_start key n i) rows) ! p
          = bucket key n i ! p"
        using c(6) i le c(2) by simp
    qed
    moreover have "bucket key n i = filter (\<lambda>r. map_of idx (?tids ! r) = Some i) [0..<n]"
      unfolding bucket_def using key by (intro filter_cong) auto
    moreover have "sorted_wrt (<) (filter (\<lambda>r. map_of idx (?tids ! r) = Some i) [0..<n])"
      by (intro sorted_wrt_filter) (simp add: sorted_wrt_upt)
    ultimately show ?thesis using s e le by simp
  qed
  show ?thesis
  proof (rule exI[of _ rows], rule exI[of _ sp], intro conjI allI impI)
    show "create_write_context idx (Some n) req =
       Returns (Inr \<lparr>row_indexes = Some rows, channel_row_idx_start_points = Some sp\<rparr>, idx)"
      by (rule c(1))
    show "mset rows = mset [0..<n]" by (rule perm)
    show "length sp = length idx + 1" using c(3) by simp
  qed (use buckets in blast)+
qed

theorem scatter_is_stable_partition_witness:
  "create_write_context (tablet_id_to_sorted_indexes example_channel) (Some 4)
       (batch 0 0 False [] [5, 2, 5, 8]) =
     Returns (Inr \<lparr>row_indexes = Some [1, 0, 2, 3],
                   channel_row_idx_start_points = Some [0, 1, 3, 4]\<rparr>,
              tablet_id_to_sorted_indexes example_channel)
   \<and> mset [1, 0, 2, 3] = mset [0..<4::nat]
   \<and> take (3 - 1) (drop 1 [1, 0, 2, 3::nat])
       = filter (\<lambda>r. map_of (tablet_id_to_sorted_indexes example_channel)
                          ([5, 2, 5, 8] ! r) = Some 1) [0..<4]"
proof -
  let ?idx = "tablet_id_to_sorted_indexes example_channel"
  let ?req = "batch 0 0 False [] [5, 2, 5, 8]"
  have ev: "create_write_context ?idx (Some 4) ?req =
     Returns (Inr \<lparr>row_indexes = Some [1, 0, 2, 3],
                   channel_row_idx_start_points = Some [0, 1, 3, 4]\<rparr>, ?idx)"
    by code_simp
  have "\<exists>rows sp.
           create_write_context ?idx (Some 4) ?req =
             Returns (Inr \<lparr>row_indexes = Some rows, channel_row_idx_start_points = Some sp\<rparr>, ?idx)
         \<and> mset rows = mset [0..<4]
         \<and> length sp = length ?idx + 1
         \<and> (\<forall>i<length ?idx.
               sp ! i \<le> sp ! Suc i \<and> sp ! Suc i \<le> 4
             \<and> take (sp ! Suc i - sp ! i) (drop (sp ! i) rows)
                 = filter (\<lambda>r. map_of ?idx (tablet_ids ?req ! r) = Some i) [0..<4]
             \<and> sorted_wrt (<) (take (sp ! Suc i - sp ! i) (drop (sp ! i) rows)))"
    by (rule scatter_is_stable_partition [OF example_open, of 40 "[]" "initial example_channel"])
       (simp_all add: example_params_def initial_def example_channel_def batch_def)
  then obtain rows sp where r:
    "create_write_context ?idx (Some 4) ?req =
       Returns (Inr \<lparr>row_indexes = Some rows, channel_row_idx_start_points = Some sp\<rparr>, ?idx)"
    "mset rows = mset [0..<4]"
    "\<forall>i<length ?idx.
        take (sp ! Suc i - sp ! i) (drop (sp ! i) rows)
          = filter (\<lambda>r. map_of ?idx (tablet_ids ?req ! r) = Some i) [0..<4]"
    by blast
  from r(1) ev have v: "rows = [1, 0, 2, 3]" "sp = [0, 1, 3, 4]" by simp_all
  have "take (sp ! Suc 1 - sp ! 1) (drop (sp ! 1) rows)
          = filter (\<lambda>r. map_of ?idx (tablet_ids ?req ! r) = Some 1) [0..<4]"
    using r(3) by (simp add: example_channel_def)
  then have "take (3 - 1) (drop 1 [1, 0, 2, 3::nat])
       = filter (\<lambda>r. map_of ?idx ([5, 2, 5, 8] ! r) = Some 1) [0..<4]"
    unfolding v by (simp add: batch_def)
  with ev r(2) v show ?thesis by simp
qed

section \<open>The scatter on the scenario of the specification\<close>

text \<open>
  Claim C8. A channel opened with the tablets 5, 2 and 8, in this order, maps tablet 2 to
  ordinal 0, tablet 5 to ordinal 1 and tablet 8 to ordinal 2, and for a chunk of four rows
  with the tablet ids 5, 2, 5, 8 \<^verbatim>\<open>_create_write_context\<close> returns a context with the start
  points 0, 1, 3, 4 and the row indexes 1, 0, 2, 3.
\<close>

theorem scatter_scenario:
  assumes "open_channel env params = Opened ch"
    and "map fst (tablets params) = [5, 2, 8]"
    and "tablet_ids req = [5, 2, 5, 8]"
  shows "map_of (tablet_id_to_sorted_indexes ch) 2 = Some 0
       \<and> map_of (tablet_id_to_sorted_indexes ch) 5 = Some 1
       \<and> map_of (tablet_id_to_sorted_indexes ch) 8 = Some 2
       \<and> length (tablet_id_to_sorted_indexes ch) = 3
       \<and> create_write_context (tablet_id_to_sorted_indexes ch) (Some 4) req =
           Returns (Inr \<lparr>row_indexes = Some [1, 0, 2, 3],
                         channel_row_idx_start_points = Some [0, 1, 3, 4]\<rparr>,
                    tablet_id_to_sorted_indexes ch)"
proof -
  have idx: "tablet_id_to_sorted_indexes ch = [(2, 0), (5, 1), (8, 2)]"
    using open_channel_Opened(1)[OF assms(1)] assms(2)
    by (simp add: sorted_indexes_def emplace_def upt_rec)
  show ?thesis
    unfolding idx using assms(3)
    by (simp add: create_write_context_def index_or_insert_def prefix_sums_def u32_def
        upt_rec numeral_eq_Suc)
qed

theorem scatter_scenario_witness:
  "map_of (tablet_id_to_sorted_indexes example_channel) 5 = Some 1
   \<and> create_write_context (tablet_id_to_sorted_indexes example_channel) (Some 4)
         (batch 0 0 False [] [5, 2, 5, 8]) =
       Returns (Inr \<lparr>row_indexes = Some [1, 0, 2, 3],
                     channel_row_idx_start_points = Some [0, 1, 3, 4]\<rparr>,
                tablet_id_to_sorted_indexes example_channel)"
  using scatter_scenario [OF example_open, of "batch 0 0 False [] [5, 2, 5, 8]"]
  by (simp add: example_params_def batch_def)

end
